theory Spec2Isabelle
  imports Main "HOL-Library.Word" "HOL-Library.AList" "HOL-Library.Multiset"
begin

section \<open>Strings\<close>

text \<open>
  A JavaScript string is a sequence of UTF-16 code units, so a string is a list of
  16-bit words. \<open>js\<close> writes an ASCII literal as such a list. The builtins the plugin
  calls are modelled on code units, as ECMAScript defines them: \<open>trim\<close> removes the
  WhiteSpace and LineTerminator code points (all of them in the Basic Multilingual
  Plane) from both ends, \<open>startsWith\<close> compares a prefix, \<open>slice(1)\<close> drops the first
  code unit, \<open>split\<close> cuts at every separator and always returns at least one part.
\<close>

type_synonym jschar = "16 word"
type_synonym jsstring = "jschar list"

definition js :: "string \<Rightarrow> jsstring" where
  "js s = map of_char s"

definition whiteSpaceUnits :: "jschar list" where
  "whiteSpaceUnits =
     [0x9, 0xA, 0xB, 0xC, 0xD, 0x20, 0xA0, 0x1680,
      0x2000, 0x2001, 0x2002, 0x2003, 0x2004, 0x2005, 0x2006, 0x2007, 0x2008, 0x2009, 0x200A,
      0x2028, 0x2029, 0x202F, 0x205F, 0x3000, 0xFEFF]"

definition isWhiteSpace :: "jschar \<Rightarrow> bool" where
  "isWhiteSpace c = (c \<in> set whiteSpaceUnits)"

definition trim :: "jsstring \<Rightarrow> jsstring" where
  "trim s = rev (dropWhile isWhiteSpace (rev (dropWhile isWhiteSpace s)))"

definition startsWith :: "jsstring \<Rightarrow> jsstring \<Rightarrow> bool" where
  "startsWith s p = (take (length p) s = p)"

fun split :: "jschar \<Rightarrow> jsstring \<Rightarrow> jsstring list" where
  "split sep [] = [[]]"
| "split sep (c # cs) =
     (if c = sep then [] # split sep cs
      else (case split sep cs of [] \<Rightarrow> [[c]] | p # ps \<Rightarrow> (c # p) # ps))"

fun join :: "jsstring \<Rightarrow> jsstring list \<Rightarrow> jsstring" where
  "join sep [] = []"
| "join sep [x] = x"
| "join sep (x # y # ys) = x @ sep @ join sep (y # ys)"

section \<open>Sets and maps of the runtime\<close>

text \<open>
  A JavaScript \<open>Set\<close> iterates in insertion order and ignores a second \<open>add\<close> of the
  same element: it is a list, and \<open>setAdd\<close> appends an element that is not yet there.
  A \<open>Map\<close> with string keys is an association list in insertion order: \<open>get\<close> is
  \<open>map_of\<close>, and \<open>set\<close> is \<open>AList.update\<close>, which replaces the value of a key in
  place and appends a new key at the end.
\<close>

definition setAdd :: "'a list \<Rightarrow> 'a \<Rightarrow> 'a list" where
  "setAdd xs x = (if x \<in> set xs then xs else xs @ [x])"

section \<open>Configuration (main.ts, lines 5-22)\<close>

text \<open>
  The field names of \<open>Level\<close> and \<open>ViewCfg\<close> carry a suffix where they would clash
  with the selectors of \<open>GroupNode\<close> or with \<open>id\<close>.
\<close>

record Level =
  name_l :: jsstring
  tags :: "jsstring list"

record ViewCfg =
  id_v :: jsstring
  name_v :: jsstring
  levels :: "Level list"

datatype SortMode = Alpha | AlphaDesc | Count

record MagiofilesSettings =
  views :: "ViewCfg list"
  activeViewId :: "jsstring option"
  sortMode :: SortMode
  showFileIcons :: bool
  showCounts :: bool

datatype error = TypeError

section \<open>Tag normalisation (main.ts, lines 24-28)\<close>

definition normalizeTag :: "jsstring \<Rightarrow> jsstring" where
  "normalizeTag tag =
     (let t = trim tag in
      if t = [] then []
      else if startsWith t (js ''#'') then t else js ''#'' @ t)"

section \<open>Deleting a view (main.ts, lines 464-474)\<close>

text \<open>
  The click handler of a view's Delete button. It returns the settings it leaves and
  the text of the notice it shows, if any. \<open>views[0].id\<close> on an empty array is a
  TypeError.
\<close>

definition delBtn_onclick ::
  "MagiofilesSettings \<Rightarrow> ViewCfg \<Rightarrow> error + (MagiofilesSettings \<times> jsstring option)" where
  "delBtn_onclick settings view =
     (if length (views settings) = 1
      then Inr (settings, Some (js ''Cannot delete the last view''))
      else
        (let settings1 = settings\<lparr>views := filter (\<lambda>v. id_v v \<noteq> id_v view) (views settings)\<rparr>
         in if activeViewId settings1 = Some (id_v view)
            then (case views settings1 of
                    [] \<Rightarrow> Inl TypeError
                  | v0 # _ \<Rightarrow> Inr (settings1\<lparr>activeViewId := Some (id_v v0)\<rparr>, None))
            else Inr (settings1, None)))"

section \<open>Grouping helpers (main.ts, lines 709-839)\<close>

text \<open>
  \<open>TFile\<close> is the host's class: the plugin reads its \<open>path\<close> and compares files by
  identity, so the file type is a parameter \<open>'f\<close> and \<open>path\<close> is passed where it is
  read. Every place that creates a \<open>GroupNode\<close> sets both \<open>children\<close> and \<open>files\<close>, so
  the two optional fields are always present.
\<close>

datatype 'f GroupNode =
  GroupNode (name: jsstring) (level: int)
    (children: "(jsstring \<times> 'f GroupNode) list") (files: "'f list")

subsection \<open>The metadata cache of the host\<close>

text \<open>
  \<open>frontmatter.tags\<close> has type \<open>any\<close>. A value parsed from YAML is undefined, null,
  a string, an array, or something else (a number, a boolean, a plain object); for the
  last kind \<open>Other\<close> carries what \<open>String(t)\<close> returns for it. \<open>String\<close> of an array
  joins its elements with commas, null and undefined elements as empty strings.
\<close>

datatype jsany = Undefined | Null | Str jsstring | Arr "jsany list" | Other jsstring

fun String_js :: "jsany \<Rightarrow> jsstring" where
  "String_js Undefined = js ''undefined''"
| "String_js Null = js ''null''"
| "String_js (Str s) = s"
| "String_js (Other s) = s"
| "String_js (Arr xs) =
     join (js '','') (map (\<lambda>x. if x = Undefined \<or> x = Null then [] else String_js x) xs)"

record FrontMatterCache =
  tags_fm :: jsany

record CachedMetadata =
  tags_c :: "jsstring list option"
  frontmatter :: "FrontMatterCache option"

subsection \<open>collectTagsForFile (lines 717-729)\<close>

text \<open>
  The argument is what \<open>app.metadataCache.getFileCache(file)\<close> returned (\<open>None\<close> for
  null); \<open>tags_c\<close> lists the \<open>tag\<close> fields of \<open>cache.tags\<close>. \<open>inline_of\<close> and
  \<open>fmTags_of\<close> are the locals \<open>inline\<close> (the \<open>tag\<close> fields of \<open>cache?.tags ?? []\<close>) and
  \<open>fmTags\<close> (\<open>cache?.frontmatter?.tags\<close>). None of the operations throws on these
  values, so the function has no error result.
\<close>

definition inline_of :: "CachedMetadata option \<Rightarrow> jsstring list" where
  "inline_of cache =
     (case cache of None \<Rightarrow> []
      | Some c \<Rightarrow> (case tags_c c of None \<Rightarrow> [] | Some ts \<Rightarrow> ts))"

definition fmTags_of :: "CachedMetadata option \<Rightarrow> jsany" where
  "fmTags_of cache =
     (case cache of None \<Rightarrow> Undefined
      | Some c \<Rightarrow> (case frontmatter c of None \<Rightarrow> Undefined | Some fm \<Rightarrow> tags_fm fm))"

definition collectTagsForFile :: "CachedMetadata option \<Rightarrow> jsstring list" where
  "collectTagsForFile cache =
     (let inline = inline_of cache;
          out = foldl setAdd [] inline;
          fmTags = fmTags_of cache
      in case fmTags of
           Str s \<Rightarrow> setAdd out (normalizeTag s)
         | Arr ts \<Rightarrow> foldl setAdd out (map (\<lambda>t. normalizeTag (String_js t)) ts)
         | _ \<Rightarrow> out)"

subsection \<open>tagMatchesAny (lines 744-752) and stripHash (lines 795-797)\<close>

fun tagMatchesAny :: "jsstring list \<Rightarrow> jsstring list \<Rightarrow> jsstring option" where
  "tagMatchesAny tagSet [] = None"
| "tagMatchesAny tagSet (w # wanted) =
     (if \<exists>t \<in> set tagSet. t = w \<or> startsWith t (w @ js ''/'') then Some w
      else tagMatchesAny tagSet wanted)"

text \<open>
  \<open>propagateLevel\<close> passes \<open>fileTags.get(f)!\<close>: for a file without an entry the tag
  set is undefined, and iterating it throws as soon as there is a pattern to test.
\<close>

definition tagMatchesAny_get ::
  "jsstring list option \<Rightarrow> jsstring list \<Rightarrow> error + jsstring option" where
  "tagMatchesAny_get tagSet wanted =
     (case tagSet of
        Some ts \<Rightarrow> Inr (tagMatchesAny ts wanted)
      | None \<Rightarrow> if wanted = [] then Inr None else Inl TypeError)"

text \<open>The callers test the result for truth: null and the empty string are false.\<close>

definition truthy :: "jsstring option \<Rightarrow> bool" where
  "truthy m = (case m of None \<Rightarrow> False | Some w \<Rightarrow> w \<noteq> [])"

definition stripHash :: "jsstring \<Rightarrow> jsstring" where
  "stripHash tag = (if startsWith tag (js ''#'') then drop 1 tag else tag)"

subsection \<open>propagateLevel (lines 754-793)\<close>

text \<open>
  \<open>bucketAdd\<close> is the get-or-create of a bucket followed by the \<open>add\<close> of files to
  it, as the loop does for a match (lines 769-775) and for the remaining files
  (lines 782-788). \<open>splitFiles\<close> is the loop over the files of the node (lines 766-779),
  with the children and the remaining files so far; \<open>the m\<close> is the matched pattern
  when \<open>m\<close> is true. \<open>splitNode\<close> is the visit of a node that holds files
  (lines 764-791).
\<close>

definition bucketAdd ::
  "(jsstring \<times> 'f GroupNode) list \<Rightarrow> jsstring \<Rightarrow> int \<Rightarrow> 'f list \<Rightarrow> (jsstring \<times> 'f GroupNode) list" where
  "bucketAdd ch key levelIdx fs =
     (let bucket = (case map_of ch key of None \<Rightarrow> GroupNode key levelIdx [] [] | Some b \<Rightarrow> b)
      in AList.update key
           (GroupNode (name bucket) (level bucket) (children bucket) (foldl setAdd (files bucket) fs))
           ch)"

fun splitFiles ::
  "('f \<Rightarrow> jsstring list option) \<Rightarrow> jsstring list \<Rightarrow> int \<Rightarrow> 'f list \<Rightarrow>
   (jsstring \<times> 'f GroupNode) list \<Rightarrow> 'f list \<Rightarrow> error + ((jsstring \<times> 'f GroupNode) list \<times> 'f list)" where
  "splitFiles fileTags levelTags levelIdx [] ch remaining = Inr (ch, remaining)"
| "splitFiles fileTags levelTags levelIdx (f # fs) ch remaining =
     (case tagMatchesAny_get (fileTags f) levelTags of
        Inl e \<Rightarrow> Inl e
      | Inr m \<Rightarrow>
          if truthy m
          then splitFiles fileTags levelTags levelIdx fs
                 (bucketAdd ch (stripHash (the m)) levelIdx [f]) remaining
          else splitFiles fileTags levelTags levelIdx fs ch (remaining @ [f]))"

definition splitNode ::
  "'f GroupNode \<Rightarrow> jsstring list \<Rightarrow> ('f \<Rightarrow> jsstring list option) \<Rightarrow> int \<Rightarrow> error + 'f GroupNode" where
  "splitNode node levelTags fileTags levelIdx =
     (case splitFiles fileTags levelTags levelIdx (files node) (children node) [] of
        Inl e \<Rightarrow> Inl e
      | Inr (ch, remaining) \<Rightarrow>
          Inr (GroupNode (name node) (level node)
                 (if remaining \<noteq> [] then bucketAdd ch (js ''Others'') levelIdx remaining else ch)
                 []))"

text \<open>
  The work list of \<open>propagateLevel\<close> visits the nodes of a tree: a node without files
  hands its children to the work list, a node with files is split and its new buckets
  are not visited again. The nodes are visited independently of each other (a visit
  changes the node and its direct buckets only), so the loop is the recursion over the
  tree.
\<close>

fun propagateLevel ::
  "'f GroupNode \<Rightarrow> jsstring list \<Rightarrow> ('f \<Rightarrow> jsstring list option) \<Rightarrow> int \<Rightarrow> error + 'f GroupNode"
and propagateChildren ::
  "(jsstring \<times> 'f GroupNode) list \<Rightarrow> jsstring list \<Rightarrow> ('f \<Rightarrow> jsstring list option) \<Rightarrow> int \<Rightarrow>
   error + (jsstring \<times> 'f GroupNode) list" where
  "propagateLevel (GroupNode n l ch fs) levelTags fileTags levelIdx =
     (if fs = []
      then (case propagateChildren ch levelTags fileTags levelIdx of
              Inl e \<Rightarrow> Inl e
            | Inr ch' \<Rightarrow> Inr (GroupNode n l ch' fs))
      else splitNode (GroupNode n l ch fs) levelTags fileTags levelIdx)"
| "propagateChildren [] levelTags fileTags levelIdx = Inr []"
| "propagateChildren ((k, child) # rest) levelTags fileTags levelIdx =
     (case propagateLevel child levelTags fileTags levelIdx of
        Inl e \<Rightarrow> Inl e
      | Inr child' \<Rightarrow>
          (case propagateChildren rest levelTags fileTags levelIdx of
             Inl e \<Rightarrow> Inl e
           | Inr rest' \<Rightarrow> Inr ((k, child') # rest')))"

subsection \<open>countFiles (lines 799-804)\<close>

fun countFiles :: "'f GroupNode \<Rightarrow> nat"
and countChildren :: "nat \<Rightarrow> (jsstring \<times> 'f GroupNode) list \<Rightarrow> nat" where
  "countFiles (GroupNode n l ch fs) = countChildren (0 + length fs) ch"
| "countChildren sum_n [] = sum_n"
| "countChildren sum_n ((k, child) # rest) = countChildren (sum_n + countFiles child) rest"

subsection \<open>addFileToFolderTree (lines 806-822)\<close>

text \<open>
  \<open>addFileAt\<close> is the walk along the folder names: it takes or creates the child of
  each name and adds the file to the node it ends at.
\<close>

fun addFileAt :: "'f GroupNode \<Rightarrow> jsstring list \<Rightarrow> 'f \<Rightarrow> 'f GroupNode" where
  "addFileAt (GroupNode n l ch fs) [] file = GroupNode n l ch (setAdd fs file)"
| "addFileAt (GroupNode n l ch fs) (folderName # parts) file =
     (let next = (case map_of ch folderName of
                    None \<Rightarrow> GroupNode folderName (l + 1) [] []
                  | Some c \<Rightarrow> c)
      in GroupNode n l (AList.update folderName (addFileAt next parts file) ch) fs)"

definition addFileToFolderTree :: "'f GroupNode \<Rightarrow> jsstring \<Rightarrow> 'f \<Rightarrow> 'f GroupNode" where
  "addFileToFolderTree root fullPath file =
     addFileAt root (butlast (split 0x2F fullPath)) file"

subsection \<open>getSortedEntries (lines 824-839)\<close>

text \<open>
  \<open>localeCompare\<close> is the host's collation and is a parameter. \<open>Array.prototype.sort\<close>
  is a stable sort; with a consistent comparator its result is determined, and it is
  the result of the stable insertion sort \<open>sort_js\<close>. \<open>byCount\<close> is the comparator of
  the count mode.
\<close>

fun insert_js :: "('a \<Rightarrow> 'a \<Rightarrow> int) \<Rightarrow> 'a \<Rightarrow> 'a list \<Rightarrow> 'a list" where
  "insert_js cmp x [] = [x]"
| "insert_js cmp x (y # ys) = (if cmp x y \<le> 0 then x # y # ys else y # insert_js cmp x ys)"

definition sort_js :: "('a \<Rightarrow> 'a \<Rightarrow> int) \<Rightarrow> 'a list \<Rightarrow> 'a list" where
  "sort_js cmp arr = foldr (insert_js cmp) arr []"

definition byCount ::
  "(jsstring \<Rightarrow> jsstring \<Rightarrow> int) \<Rightarrow> jsstring \<times> 'f GroupNode \<Rightarrow> jsstring \<times> 'f GroupNode \<Rightarrow> int" where
  "byCount localeCompare a b =
     (let ca = int (countFiles (snd a)); cb = int (countFiles (snd b))
      in if cb \<noteq> ca then cb - ca else localeCompare (fst a) (fst b))"

definition getSortedEntries ::
  "(jsstring \<Rightarrow> jsstring \<Rightarrow> int) \<Rightarrow> (jsstring \<times> 'f GroupNode) list \<Rightarrow> SortMode \<Rightarrow>
   (jsstring \<times> 'f GroupNode) list" where
  "getSortedEntries localeCompare m mode =
     (case mode of
        Count \<Rightarrow> sort_js (byCount localeCompare) m
      | AlphaDesc \<Rightarrow> sort_js (\<lambda>a b. localeCompare (fst b) (fst a)) m
      | Alpha \<Rightarrow> sort_js (\<lambda>a b. localeCompare (fst a) (fst b)) m)"

subsection \<open>Building the two trees (renderTree, lines 527-553)\<close>

text \<open>
  \<open>fileTagsOf\<close> is the map of the tag sets of the markdown files (lines 528-529),
  \<open>matchedFiles\<close> the set of the files that match a level (lines 532-539),
  \<open>propagateLevels\<close> the loop over the levels (lines 543-546), \<open>folderTree\<close> the loop
  that adds the other files to the folder tree (lines 549-553), and \<open>build\<close> the whole
  of it. The host's \<open>getFileCache\<close> and the \<open>path\<close> of a file are parameters.
\<close>

definition fileTagsOf ::
  "('f \<Rightarrow> CachedMetadata option) \<Rightarrow> 'f list \<Rightarrow> ('f \<Rightarrow> jsstring list option)" where
  "fileTagsOf getFileCache mdFiles =
     foldl (\<lambda>m f. m(f \<mapsto> collectTagsForFile (getFileCache f))) Map.empty mdFiles"

definition matchedFiles ::
  "('f \<Rightarrow> jsstring list option) \<Rightarrow> 'f list \<Rightarrow> Level list \<Rightarrow> 'f list" where
  "matchedFiles fileTags mdFiles lvls =
     foldl (\<lambda>matched f.
        if \<exists>lvl \<in> set lvls.
             truthy (tagMatchesAny (case fileTags f of None \<Rightarrow> [] | Some s \<Rightarrow> s) (tags lvl))
        then setAdd matched f else matched) [] mdFiles"

fun propagateLevels ::
  "'f GroupNode \<Rightarrow> Level list \<Rightarrow> ('f \<Rightarrow> jsstring list option) \<Rightarrow> int \<Rightarrow> error + 'f GroupNode" where
  "propagateLevels tagsRoot [] fileTags lv = Inr tagsRoot"
| "propagateLevels tagsRoot (levelCfg # rest) fileTags lv =
     (case propagateLevel tagsRoot (tags levelCfg) fileTags lv of
        Inl e \<Rightarrow> Inl e
      | Inr tagsRoot' \<Rightarrow> propagateLevels tagsRoot' rest fileTags (lv + 1))"

definition folderTree :: "('f \<Rightarrow> jsstring) \<Rightarrow> 'f list \<Rightarrow> 'f list \<Rightarrow> 'f GroupNode" where
  "folderTree path allFiles matched =
     foldl (\<lambda>folderRoot f.
        if f \<in> set matched then folderRoot else addFileToFolderTree folderRoot (path f) f)
       (GroupNode (js ''root'') (- 1) [] []) allFiles"

definition build ::
  "('f \<Rightarrow> jsstring) \<Rightarrow> ('f \<Rightarrow> CachedMetadata option) \<Rightarrow> 'f list \<Rightarrow> 'f list \<Rightarrow> Level list \<Rightarrow>
   error + ('f GroupNode \<times> 'f GroupNode)" where
  "build path getFileCache allFiles mdFiles lvls =
     (let fileTags = fileTagsOf getFileCache mdFiles;
          matched = matchedFiles fileTags mdFiles lvls
      in case propagateLevels (GroupNode (js ''root'') (- 1) [] matched) lvls fileTags 0 of
           Inl e \<Rightarrow> Inl e
         | Inr tagsRoot \<Rightarrow> Inr (tagsRoot, folderTree path allFiles matched))"

text \<open>
  \<open>renderTree\<close> returns before it builds anything when the vault has no file
  (lines 522-525); otherwise it builds the two trees.
\<close>

definition renderTree ::
  "('f \<Rightarrow> jsstring) \<Rightarrow> ('f \<Rightarrow> CachedMetadata option) \<Rightarrow> 'f list \<Rightarrow> 'f list \<Rightarrow> Level list \<Rightarrow>
   error + ('f GroupNode \<times> 'f GroupNode) option" where
  "renderTree path getFileCache allFiles mdFiles lvls =
     (if allFiles = [] then Inr None
      else (case build path getFileCache allFiles mdFiles lvls of
              Inl e \<Rightarrow> Inl e
            | Inr trees \<Rightarrow> Inr (Some trees)))"

subsection \<open>The files a tree holds\<close>

text \<open>
  \<open>nodeFiles\<close> lists the files reachable from a node: its own files, then those of
  its children, one entry for every place a file stands at.
\<close>

fun nodeFiles :: "'f GroupNode \<Rightarrow> 'f list" where
  "nodeFiles (GroupNode n l ch fs) = fs @ concat (map (\<lambda>(k, c). nodeFiles c) ch)"

section \<open>Notions for the properties\<close>

text \<open>
  The files of a tree. \<open>childFiles\<close> lists the files below a children mapping, \<open>nodes\<close>
  the nodes of a tree. \<open>terminalBuckets\<close> says of a tree what the specification says of
  a node: a node with children holds no files of its own; \<open>leafOnly\<close> is the same
  property by recursion over the tree. \<open>holdsAt\<close> says that a file stands in the node
  that a list of folder names leads to.
\<close>

definition childFiles :: "(jsstring \<times> 'f GroupNode) list \<Rightarrow> 'f list" where
  "childFiles ch = concat (map (\<lambda>(k, c). nodeFiles c) ch)"

fun leafOnly :: "'f GroupNode \<Rightarrow> bool" where
  "leafOnly (GroupNode n l ch fs) = ((ch = [] \<or> fs = []) \<and> (\<forall>(k, c) \<in> set ch. leafOnly c))"

fun nodes :: "'f GroupNode \<Rightarrow> 'f GroupNode list" where
  "nodes (GroupNode n l ch fs) = GroupNode n l ch fs # concat (map (\<lambda>(k, c). nodes c) ch)"

definition terminalBuckets :: "'f GroupNode \<Rightarrow> bool" where
  "terminalBuckets t = (\<forall>n \<in> set (nodes t). children n \<noteq> [] \<longrightarrow> files n = [])"

fun holdsAt :: "'f GroupNode \<Rightarrow> jsstring list \<Rightarrow> 'f \<Rightarrow> bool" where
  "holdsAt (GroupNode n l ch fs) [] f = (f \<in> set fs)"
| "holdsAt (GroupNode n l ch fs) (k # ps) f =
     (case map_of ch k of None \<Rightarrow> False | Some c \<Rightarrow> holdsAt c ps f)"

text \<open>
  The buckets of a split. \<open>bucketFiles\<close> lists the files of the child with a given
  label (none when there is no such child). \<open>matchKey\<close> is the label of the pattern
  bucket of a file at a level: the display form of the pattern that \<open>tagMatchesAny\<close>
  returns, and nothing when it returns null or the empty pattern. \<open>matchesPattern\<close> is
  the test of one pattern against a tag set (line 748).
\<close>

definition bucketFiles :: "(jsstring \<times> 'f GroupNode) list \<Rightarrow> jsstring \<Rightarrow> 'f list" where
  "bucketFiles ch k = (case map_of ch k of None \<Rightarrow> [] | Some c \<Rightarrow> files c)"

definition matchKey :: "('f \<Rightarrow> jsstring list option) \<Rightarrow> jsstring list \<Rightarrow> 'f \<Rightarrow> jsstring option" where
  "matchKey fileTags levelTags f =
     (case fileTags f of
        None \<Rightarrow> None
      | Some ts \<Rightarrow>
          (case tagMatchesAny ts levelTags of
             None \<Rightarrow> None
           | Some w \<Rightarrow> if w = [] then None else Some (stripHash w)))"

definition matchesPattern :: "jsstring list \<Rightarrow> jsstring \<Rightarrow> bool" where
  "matchesPattern T w = (\<exists>t \<in> set T. t = w \<or> startsWith t (w @ js ''/''))"

text \<open>
  \<open>frontmatterStrings\<close> lists the strings of the frontmatter tag field: the string
  itself, or the elements of the array as \<open>String\<close> converts them; any other field has
  none.
\<close>

definition frontmatterStrings :: "CachedMetadata option \<Rightarrow> jsstring list" where
  "frontmatterStrings cache =
     (case fmTags_of cache of Str s \<Rightarrow> [s] | Arr ts \<Rightarrow> map String_js ts | _ \<Rightarrow> [])"

section \<open>The wording of the specification\<close>

text \<open>
  The matching predicate as the specification words it: the pattern is an element of
  the tag set, or a tag is the pattern, the separator and at least one more character.
\<close>

definition matches_spec :: "jsstring list \<Rightarrow> jsstring \<Rightarrow> bool" where
  "matches_spec T p =
     (p \<in> set T \<or> (\<exists>t \<in> set T. startsWith t (p @ js ''/'') \<and> length (p @ js ''/'') < length t))"

text \<open>
  The classifier as the specification words it: \<open>normalize_spec\<close> discards a string that
  is empty after trimming, and \<open>classify_spec\<close> is the union of the normalised inline tags
  and the normalised frontmatter tags.
\<close>

definition normalize_spec :: "jsstring \<Rightarrow> jsstring option" where
  "normalize_spec x =
     (let t = trim x in
      if t = [] then None else Some (if startsWith t (js ''#'') then t else js ''#'' @ t))"

definition classify_spec :: "CachedMetadata option \<Rightarrow> jsstring set" where
  "classify_spec cache =
     set (List.map_filter normalize_spec (inline_of cache))
     \<union> set (List.map_filter normalize_spec (frontmatterStrings cache))"

section \<open>Example data\<close>

text \<open>
  Two views, a third view with the id of the first, and the settings that hold a list
  of views, the view with the id \<open>default\<close> active.
\<close>

definition view_default :: ViewCfg where
  "view_default = \<lparr>id_v = js ''default'', name_v = js ''Default'', levels = []\<rparr>"

definition view_1 :: ViewCfg where
  "view_1 = \<lparr>id_v = js ''view-1'', name_v = js ''New View'', levels = []\<rparr>"

definition view_twin :: ViewCfg where
  "view_twin = \<lparr>id_v = js ''default'', name_v = js ''Copy'', levels = []\<rparr>"

definition settings_of :: "ViewCfg list \<Rightarrow> MagiofilesSettings" where
  "settings_of vs = \<lparr>views = vs, activeViewId = Some (js ''default''), sortMode = Alpha,
     showFileIcons = True, showCounts = True\<rparr>"

text \<open>
  A collation for the examples: the comparison of two strings code unit by code unit.
  Three sibling buckets, two of them with one file each.
\<close>

fun compareUnits :: "jsstring \<Rightarrow> jsstring \<Rightarrow> int" where
  "compareUnits [] [] = 0"
| "compareUnits [] (y # ys) = - 1"
| "compareUnits (x # xs) [] = 1"
| "compareUnits (x # xs) (y # ys) =
     (if x < y then - 1 else if y < x then 1 else compareUnits xs ys)"

definition sortExample :: "(jsstring \<times> jsstring GroupNode) list" where
  "sortExample =
     [(js ''b'', GroupNode (js ''b'') 0 [] [js ''n1.md'']),
      (js ''a'', GroupNode (js ''a'') 0 [] [js ''n2.md'']),
      (js ''c'', GroupNode (js ''c'') 0 [] [js ''n3.md'', js ''n4.md''])]"

text \<open>
  Two metadata caches: inline tags with a duplicate and a frontmatter array; a
  frontmatter string of one space and no inline tag.
\<close>

definition cache_mixed :: "CachedMetadata option" where
  "cache_mixed = Some \<lparr>tags_c = Some [js ''#x'', js ''#y'', js ''#x''],
     frontmatter = Some \<lparr>tags_fm = Arr [Str (js '' y ''), Other (js ''7''), Null]\<rparr>\<rparr>"

definition cache_blank :: "CachedMetadata option" where
  "cache_blank = Some \<lparr>tags_c = None, frontmatter = Some \<lparr>tags_fm = Str (js '' '')\<rparr>\<rparr>"

text \<open>
  The scenario of the specification: \<open>A.md\<close> with the inline tag \<open>#project/work\<close>,
  \<open>B.md\<close> with the frontmatter tag \<open>project/home\<close>, \<open>C.md\<close> without tags, and one
  level with the pattern \<open>#project\<close>; the two trees of the scenario, and the root after
  the split of all three files by that level. A file is identified by its path.
\<close>

definition exampleCache :: "jsstring \<Rightarrow> CachedMetadata option" where
  "exampleCache f =
     (if f = js ''A.md'' then Some \<lparr>tags_c = Some [js ''#project/work''], frontmatter = None\<rparr>
      else if f = js ''B.md''
      then Some \<lparr>tags_c = None, frontmatter = Some \<lparr>tags_fm = Str (js ''project/home'')\<rparr>\<rparr>
      else Some \<lparr>tags_c = None, frontmatter = None\<rparr>)"

definition exampleFiles :: "jsstring list" where
  "exampleFiles = [js ''A.md'', js ''B.md'', js ''C.md'']"

definition exampleLevels :: "Level list" where
  "exampleLevels = [\<lparr>name_l = js ''Project'', tags = [js ''#project'']\<rparr>]"

definition exampleTagTree :: "jsstring GroupNode" where
  "exampleTagTree =
     GroupNode (js ''root'') (- 1)
       [(js ''project'', GroupNode (js ''project'') 0 [] [js ''A.md'', js ''B.md''])] []"

definition exampleFolderTree :: "jsstring GroupNode" where
  "exampleFolderTree = GroupNode (js ''root'') (- 1) [] [js ''C.md'']"

definition splitExample :: "jsstring GroupNode" where
  "splitExample =
     GroupNode (js ''root'') (- 1)
       [(js ''project'', GroupNode (js ''project'') 0 [] [js ''A.md'', js ''B.md'']),
        (js ''Others'', GroupNode (js ''Others'') 0 [] [js ''C.md''])] []"

text \<open>Two files in a folder and its sub-folder, and their folder tree.\<close>

definition folderFiles :: "jsstring list" where
  "folderFiles = [js ''a/x.md'', js ''a/b/y.md'']"

definition folderExampleTree :: "jsstring GroupNode" where
  "folderExampleTree =
     GroupNode (js ''root'') (- 1)
       [(js ''a'', GroupNode (js ''a'') 0
           [(js ''b'', GroupNode (js ''b'') 1 [] [js ''a/b/y.md''])] [js ''a/x.md''])] []"

text \<open>
  A level with the pattern \<open>#Others\<close> below a level with the pattern \<open>#p\<close>: \<open>A.md\<close>
  carries both tags, \<open>B.md\<close> only \<open>#p\<close>.
\<close>

definition othersCache :: "jsstring \<Rightarrow> CachedMetadata option" where
  "othersCache f =
     (if f = js ''A.md''
      then Some \<lparr>tags_c = Some [js ''#p'', js ''#Others''], frontmatter = None\<rparr>
      else Some \<lparr>tags_c = Some [js ''#p''], frontmatter = None\<rparr>)"

definition othersFiles :: "jsstring list" where
  "othersFiles = [js ''A.md'', js ''B.md'']"

definition othersLevels :: "Level list" where
  "othersLevels = [\<lparr>name_l = js ''Level 1'', tags = [js ''#p'']\<rparr>,
                   \<lparr>name_l = js ''Level 2'', tags = [js ''#Others'']\<rparr>]"

definition othersTagTree :: "jsstring GroupNode" where
  "othersTagTree =
     GroupNode (js ''root'') (- 1)
       [(js ''p'', GroupNode (js ''p'') 0
           [(js ''Others'', GroupNode (js ''Others'') 1 [] [js ''A.md'', js ''B.md''])] [])] []"

text \<open>
  A file whose frontmatter lists a blank tag and the tag \<open>b\<close>, and two levels: the
  pattern \<open>#b\<close>, and below it the empty pattern before \<open>#b\<close>.
\<close>

definition emptyPatternCache :: "jsstring \<Rightarrow> CachedMetadata option" where
  "emptyPatternCache f =
     Some \<lparr>tags_c = None, frontmatter = Some \<lparr>tags_fm = Arr [Str (js '' ''), Str (js ''b'')]\<rparr>\<rparr>"

definition emptyPatternLevels :: "Level list" where
  "emptyPatternLevels = [\<lparr>name_l = js ''Level 1'', tags = [js ''#b'']\<rparr>,
                         \<lparr>name_l = js ''Level 2'', tags = [[], js ''#b'']\<rparr>]"

definition emptyPatternTagTree :: "jsstring GroupNode" where
  "emptyPatternTagTree =
     GroupNode (js ''root'') (- 1)
       [(js ''b'', GroupNode (js ''b'') 0
           [(js ''Others'', GroupNode (js ''Others'') 1 [] [js ''N.md''])] [])] []"

section \<open>Properties of the strings and of normalizeTag\<close>

lemma hash_not_ws: "\<not> isWhiteSpace 0x23"
  by (simp add: isWhiteSpace_def whiteSpaceUnits_def)

lemma js_hash: "js ''#'' = [0x23]"
  by (simp add: js_def)

lemma trim_Nil: "trim [] = []"
  by (simp add: trim_def)

lemma last_dropWhile_ne: "dropWhile P xs \<noteq> [] \<Longrightarrow> last (dropWhile P xs) = last xs"
  by (induction xs) (auto split: if_splits)

lemma trim_fix:
  assumes "s = [] \<or> (\<not> isWhiteSpace (hd s) \<and> \<not> isWhiteSpace (last s))"
  shows "trim s = s"
proof (cases "s = []")
  case True
  then show ?thesis by (simp add: trim_def)
next
  case False
  with assms have h: "\<not> isWhiteSpace (hd s)" and l: "\<not> isWhiteSpace (last s)" by auto
  from False h have "dropWhile isWhiteSpace s = s"
    by (cases s) auto
  moreover from False l have "dropWhile isWhiteSpace (rev s) = rev s"
    by (cases "rev s") (auto simp: last_rev hd_rev [symmetric])
  ultimately show ?thesis by (simp add: trim_def)
qed

lemma trim_ends:
  assumes "trim s \<noteq> []"
  shows "\<not> isWhiteSpace (hd (trim s)) \<and> \<not> isWhiteSpace (last (trim s))"
proof -
  let ?d = "dropWhile isWhiteSpace s"
  let ?e = "dropWhile isWhiteSpace (rev ?d)"
  from assms have e: "?e \<noteq> []" by (simp add: trim_def)
  then have d: "?d \<noteq> []" by (metis dropWhile.simps(1) rev.simps(1))
  have "\<not> isWhiteSpace (hd ?e)" using e by (rule hd_dropWhile)
  then have l: "\<not> isWhiteSpace (last (trim s))"
    using e by (simp add: trim_def last_rev)
  have "last ?e = last (rev ?d)" using e by (rule last_dropWhile_ne)
  then have "hd (trim s) = hd ?d" using e d by (simp add: trim_def hd_rev last_rev)
  moreover have "\<not> isWhiteSpace (hd ?d)" using d by (rule hd_dropWhile)
  ultimately show ?thesis using l by simp
qed

lemma trim_idem: "trim (trim s) = trim s"
  using trim_ends [of s] by (intro trim_fix) blast

lemma normalizeTag_fix:
  assumes "t \<noteq> []" "trim t = t" "startsWith t (js ''#'')"
  shows "normalizeTag t = t"
  using assms by (simp add: normalizeTag_def)

text \<open>
  Claim C7. Tag normalisation is idempotent: normalising a normalised string changes
  nothing. The empty string, and every string that is empty after trimming, is
  normalised to the empty string, which is no tag; every other string is normalised to
  a string that starts with the marker.
\<close>

theorem normalizeTag_idempotent:
  "normalizeTag (normalizeTag x) = normalizeTag x
   \<and> normalizeTag [] = []
   \<and> (trim x = [] \<longrightarrow> normalizeTag x = [])
   \<and> (trim x \<noteq> [] \<longrightarrow> startsWith (normalizeTag x) (js ''#''))"
proof -
  have a: "normalizeTag [] = []" by (simp add: normalizeTag_def trim_Nil)
  have b: "trim x = [] \<longrightarrow> normalizeTag x = []" by (simp add: normalizeTag_def)
  have c: "trim x \<noteq> [] \<longrightarrow> startsWith (normalizeTag x) (js ''#'')"
    by (simp add: normalizeTag_def startsWith_def js_hash Let_def)
  have d: "normalizeTag (normalizeTag x) = normalizeTag x"
  proof (cases "trim x = []")
    case True
    then show ?thesis using a by (simp add: normalizeTag_def)
  next
    case ne: False
    show ?thesis
    proof (cases "startsWith (trim x) (js ''#'')")
      case True
      with ne have "normalizeTag x = trim x" by (simp add: normalizeTag_def)
      moreover have "normalizeTag (trim x) = trim x"
        using ne True by (intro normalizeTag_fix) (simp_all add: trim_idem)
      ultimately show ?thesis by simp
    next
      case False
      with ne have n: "normalizeTag x = js ''#'' @ trim x" by (simp add: normalizeTag_def)
      have "trim (js ''#'' @ trim x) = js ''#'' @ trim x"
        using trim_ends [OF ne] ne by (intro trim_fix) (simp add: js_hash hash_not_ws)
      then have "normalizeTag (js ''#'' @ trim x) = js ''#'' @ trim x"
        by (intro normalizeTag_fix) (simp_all add: js_hash startsWith_def)
      with n show ?thesis by simp
    qed
  qed
  from a b c d show ?thesis by blast
qed

theorem normalizeTag_idempotent_witness:
  "normalizeTag (normalizeTag (js '' a '')) = normalizeTag (js '' a '')
   \<and> normalizeTag (js ''  '') = []
   \<and> startsWith (normalizeTag (js '' a '')) (js ''#'')
   \<and> normalizeTag (js '' a '') = js ''#a''"
proof -
  have 1: "trim (js '' a '') \<noteq> []"
    by (simp add: trim_def js_def isWhiteSpace_def whiteSpaceUnits_def)
  have 2: "trim (js ''  '') = []"
    by (simp add: trim_def js_def isWhiteSpace_def whiteSpaceUnits_def)
  have 3: "normalizeTag (js '' a '') = js ''#a''"
    by (simp add: normalizeTag_def startsWith_def trim_def js_def isWhiteSpace_def whiteSpaceUnits_def)
  show ?thesis
    using normalizeTag_idempotent [of "js '' a ''"] normalizeTag_idempotent [of "js ''  ''"] 1 2 3
    by blast
qed

section \<open>tagMatchesAny\<close>

lemma startsWith_iff: "startsWith t p \<longleftrightarrow> (\<exists>rest. t = p @ rest)"
  unfolding startsWith_def
  by (metis append_eq_conv_conj append_take_drop_id)

lemma tagMatchesAny_eq_find:
  "tagMatchesAny T wanted =
     find (\<lambda>w. \<exists>t \<in> set T. t = w \<or> startsWith t (w @ js ''/'')) wanted"
  by (induction wanted) simp_all

text \<open>
  Claim C3, as the code has it. For a tag set \<open>T\<close> and a pattern \<open>p\<close>, \<open>tagMatchesAny\<close>
  returns \<open>p\<close> exactly when \<open>p\<close> is an element of \<open>T\<close> or some tag of \<open>T\<close> starts with
  \<open>p\<close> followed by the separator, whatever follows the separator (nothing included);
  otherwise it returns null. The tag set \<open>{"#a/b"}\<close> matches the pattern \<open>"#a"\<close> and the
  tag set \<open>{"#ab"}\<close> does not.
\<close>

theorem tagMatchesAny_single:
  "tagMatchesAny T [p] =
     (if p \<in> set T \<or> (\<exists>t \<in> set T. \<exists>rest. t = p @ js ''/'' @ rest) then Some p else None)
   \<and> tagMatchesAny [js ''#a/b''] [js ''#a''] = Some (js ''#a'')
   \<and> tagMatchesAny [js ''#ab''] [js ''#a''] = None"
proof -
  have "tagMatchesAny T [p] =
     (if p \<in> set T \<or> (\<exists>t \<in> set T. \<exists>rest. t = p @ js ''/'' @ rest) then Some p else None)"
    by (auto simp: startsWith_iff)
  moreover have "tagMatchesAny [js ''#a/b''] [js ''#a''] = Some (js ''#a'')"
    by (simp add: startsWith_def js_def)
  moreover have "tagMatchesAny [js ''#ab''] [js ''#a''] = None"
    by (simp add: startsWith_def js_def)
  ultimately show ?thesis by blast
qed

theorem tagMatchesAny_single_witness:
  "tagMatchesAny [js ''#x'', js ''#a/b''] [js ''#a''] = Some (js ''#a'')
   \<and> tagMatchesAny [js ''#x'', js ''#a''] [js ''#a''] = Some (js ''#a'')
   \<and> tagMatchesAny [js ''#x'', js ''#ab''] [js ''#a''] = None"
proof -
  have 1: "js ''#a/b'' = js ''#a'' @ js ''/'' @ js ''b''" by (simp add: js_def)
  have 2: "\<not> (\<exists>rest. js ''#x'' = js ''#a'' @ js ''/'' @ rest)" by (simp add: js_def)
  have 3: "\<not> (\<exists>rest. js ''#ab'' = js ''#a'' @ js ''/'' @ rest)" by (simp add: js_def)
  have 4: "js ''#a'' \<noteq> js ''#x''" "js ''#a'' \<noteq> js ''#ab''" by (simp_all add: js_def)
  have c1: "js ''#a'' \<in> set [js ''#x'', js ''#a/b''] \<or>
      (\<exists>t \<in> set [js ''#x'', js ''#a/b'']. \<exists>rest. t = js ''#a'' @ js ''/'' @ rest)"
    using 1 by (intro disjI2 bexI [of _ "js ''#a/b''"] exI [of _ "js ''b''"]) simp_all
  have c2: "js ''#a'' \<in> set [js ''#x'', js ''#a''] \<or>
      (\<exists>t \<in> set [js ''#x'', js ''#a'']. \<exists>rest. t = js ''#a'' @ js ''/'' @ rest)"
    by simp
  have c3: "\<not> (js ''#a'' \<in> set [js ''#x'', js ''#ab''] \<or>
      (\<exists>t \<in> set [js ''#x'', js ''#ab'']. \<exists>rest. t = js ''#a'' @ js ''/'' @ rest))"
    using 2 3 4 by simp
  have a: "tagMatchesAny [js ''#x'', js ''#a/b''] [js ''#a''] = Some (js ''#a'')"
    using tagMatchesAny_single [of "[js ''#x'', js ''#a/b'']" "js ''#a''", THEN conjunct1] c1
    by (simp only: if_True)
  have b: "tagMatchesAny [js ''#x'', js ''#a''] [js ''#a''] = Some (js ''#a'')"
    using tagMatchesAny_single [of "[js ''#x'', js ''#a'']" "js ''#a''", THEN conjunct1] c2
    by (simp only: if_True)
  have c: "tagMatchesAny [js ''#x'', js ''#ab''] [js ''#a''] = None"
    using tagMatchesAny_single [of "[js ''#x'', js ''#ab'']" "js ''#a''", THEN conjunct1] c3
    by (simp only: if_False)
  from a b c show ?thesis by blast
qed

text \<open>
  The tag \<open>"#a/"\<close> ends with the separator: the code matches it against \<open>"#a"\<close>, the
  predicate of the specification does not.
\<close>

theorem tagMatchesAny_bare_separator_counterexample:
  "tagMatchesAny [js ''#a/''] [js ''#a''] = Some (js ''#a'')
   \<and> \<not> matches_spec [js ''#a/''] (js ''#a'')"
  by (simp add: matches_spec_def startsWith_def js_def)

section \<open>Deleting a view\<close>

lemma filter_eq_distinct_le1:
  "distinct (map f xs) \<Longrightarrow> length (filter (\<lambda>v. f v = x) xs) \<le> 1"
proof (induction xs)
  case Nil
  then show ?case by simp
next
  case (Cons a xs)
  show ?case
  proof (cases "f a = x")
    case True
    with Cons.prems have "\<forall>v \<in> set xs. f v \<noteq> x" by (auto simp: image_iff)
    then have "filter (\<lambda>v. f v = x) xs = []" by (simp add: filter_empty_conv)
    with True show ?thesis by simp
  next
    case False
    with Cons show ?thesis by simp
  qed
qed

lemma filter_neq_nonempty:
  assumes "distinct (map f xs)" "2 \<le> length xs"
  shows "filter (\<lambda>v. f v \<noteq> x) xs \<noteq> []"
proof -
  have "length xs = length (filter (\<lambda>v. f v = x) xs) + length (filter (\<lambda>v. f v \<noteq> x) xs)"
    using sum_length_filter_compl [of "\<lambda>v. f v = x" xs] by simp
  with filter_eq_distinct_le1 [OF assms(1), of x] assms(2)
  have "1 \<le> length (filter (\<lambda>v. f v \<noteq> x) xs)" by linarith
  then show ?thesis by auto
qed

text \<open>
  Claim C10, as the code has it. Let the views of the configuration have distinct ids.
  Deleting a view when it is the only one is rejected with a notice and leaves the
  settings as they were. So every deletion from a non-empty view list returns with a
  non-empty view list; a deletion that goes through removes the view with the id of
  the deleted one, and when that view was the active one the active id becomes the id
  of a view that is left (otherwise the active id stays).
\<close>

theorem delBtn_onclick_keeps_a_view:
  assumes "distinct (map id_v (views s))"
  shows "(length (views s) = 1 \<longrightarrow>
            delBtn_onclick s view = Inr (s, Some (js ''Cannot delete the last view'')))
       \<and> (views s \<noteq> [] \<longrightarrow>
            (\<exists>s' notice. delBtn_onclick s view = Inr (s', notice) \<and> views s' \<noteq> []
               \<and> (length (views s) \<noteq> 1 \<longrightarrow>
                    notice = None
                    \<and> views s' = filter (\<lambda>v. id_v v \<noteq> id_v view) (views s)
                    \<and> (activeViewId s = Some (id_v view) \<longrightarrow>
                         (\<exists>v \<in> set (views s'). activeViewId s' = Some (id_v v)))
                    \<and> (activeViewId s \<noteq> Some (id_v view) \<longrightarrow> activeViewId s' = activeViewId s))))"
proof (intro conjI impI)
  assume "length (views s) = 1"
  then show "delBtn_onclick s view = Inr (s, Some (js ''Cannot delete the last view''))"
    by (simp add: delBtn_onclick_def)
next
  assume ne: "views s \<noteq> []"
  show "\<exists>s' notice. delBtn_onclick s view = Inr (s', notice) \<and> views s' \<noteq> []
               \<and> (length (views s) \<noteq> 1 \<longrightarrow>
                    notice = None
                    \<and> views s' = filter (\<lambda>v. id_v v \<noteq> id_v view) (views s)
                    \<and> (activeViewId s = Some (id_v view) \<longrightarrow>
                         (\<exists>v \<in> set (views s'). activeViewId s' = Some (id_v v)))
                    \<and> (activeViewId s \<noteq> Some (id_v view) \<longrightarrow> activeViewId s' = activeViewId s))"
  proof (cases "length (views s) = 1")
    case True
    with ne show ?thesis by (simp add: delBtn_onclick_def)
  next
    case False
    with ne have "2 \<le> length (views s)"
      by (cases "views s") (auto simp: Suc_le_eq)
    from filter_neq_nonempty [OF assms this, of "id_v view"]
    obtain v0 rest where f: "filter (\<lambda>v. id_v v \<noteq> id_v view) (views s) = v0 # rest"
      by (cases "filter (\<lambda>v. id_v v \<noteq> id_v view) (views s)") auto
    show ?thesis
    proof (cases "activeViewId s = Some (id_v view)")
      case True
      with False f have "delBtn_onclick s view =
          Inr (s\<lparr>views := v0 # rest, activeViewId := Some (id_v v0)\<rparr>, None)"
        by (simp add: delBtn_onclick_def)
      with False f True show ?thesis by simp
    next
      case na: False
      with False f have "delBtn_onclick s view = Inr (s\<lparr>views := v0 # rest\<rparr>, None)"
        by (simp add: delBtn_onclick_def)
      with False f na show ?thesis by simp
    qed
  qed
qed

theorem delBtn_onclick_keeps_a_view_witness:
  "delBtn_onclick (settings_of [view_default]) view_default =
     Inr (settings_of [view_default], Some (js ''Cannot delete the last view''))
   \<and> (\<exists>s'. delBtn_onclick (settings_of [view_default, view_1]) view_default = Inr (s', None)
         \<and> views s' = [view_1] \<and> activeViewId s' = Some (js ''view-1''))"
proof -
  have d1: "distinct (map id_v (views (settings_of [view_default])))"
    by (simp add: settings_of_def)
  have d2: "distinct (map id_v (views (settings_of [view_default, view_1])))"
    by (simp add: settings_of_def view_default_def view_1_def js_def)
  have l1: "length (views (settings_of [view_default])) = 1"
    by (simp add: settings_of_def)
  have l2: "views (settings_of [view_default, view_1]) \<noteq> []"
       "length (views (settings_of [view_default, view_1])) \<noteq> 1"
       "activeViewId (settings_of [view_default, view_1]) = Some (id_v view_default)"
       "filter (\<lambda>v. id_v v \<noteq> id_v view_default) (views (settings_of [view_default, view_1])) = [view_1]"
    by (simp_all add: settings_of_def view_default_def view_1_def js_def)
  have i: "id_v view_1 = js ''view-1''" by (simp add: view_1_def)
  from delBtn_onclick_keeps_a_view [OF d1, of view_default] l1
  have a: "delBtn_onclick (settings_of [view_default]) view_default =
     Inr (settings_of [view_default], Some (js ''Cannot delete the last view''))"
    by blast
  from delBtn_onclick_keeps_a_view [OF d2, of view_default] l2
  obtain s' notice where
    "delBtn_onclick (settings_of [view_default, view_1]) view_default = Inr (s', notice)"
    "notice = None" "views s' = [view_1]" "\<exists>v \<in> set (views s'). activeViewId s' = Some (id_v v)"
    by auto
  then have "delBtn_onclick (settings_of [view_default, view_1]) view_default = Inr (s', None)
         \<and> views s' = [view_1] \<and> activeViewId s' = Some (js ''view-1'')"
    using i by auto
  with a show ?thesis by blast
qed

text \<open>
  The handler deletes by id. With two views of one id, the active one, the filter
  removes both, and reading \<open>views[0].id\<close> of the empty list throws.
\<close>

theorem delBtn_onclick_same_id_counterexample:
  "delBtn_onclick (settings_of [view_default, view_twin]) view_default = Inl TypeError
   \<and> length (views (settings_of [view_default, view_twin])) = 2"
  by (simp add: delBtn_onclick_def settings_of_def view_default_def view_twin_def)

section \<open>getSortedEntries\<close>

lemma mset_insert_js: "mset (insert_js cmp x ys) = add_mset x (mset ys)"
  by (induction ys) simp_all

lemma mset_sort_js: "mset (sort_js cmp xs) = mset xs"
  by (induction xs) (simp_all add: sort_js_def mset_insert_js)

lemma set_insert_js: "set (insert_js cmp x ys) = insert x (set ys)"
  by (induction ys) auto

lemma sorted_insert_js:
  assumes tot: "\<And>a b. cmp a b \<le> 0 \<or> cmp b a \<le> 0"
      and trans: "\<And>a b c. cmp a b \<le> 0 \<Longrightarrow> cmp b c \<le> 0 \<Longrightarrow> cmp a c \<le> 0"
  shows "sorted_wrt (\<lambda>a b. cmp a b \<le> 0) ys \<Longrightarrow> sorted_wrt (\<lambda>a b. cmp a b \<le> 0) (insert_js cmp x ys)"
proof (induction ys)
  case Nil
  then show ?case by simp
next
  case (Cons y ys)
  show ?case
  proof (cases "cmp x y \<le> 0")
    case True
    with Cons.prems trans show ?thesis by auto
  next
    case False
    with tot have "cmp y x \<le> 0" by blast
    with False Cons show ?thesis by (auto simp: set_insert_js)
  qed
qed

lemma sorted_sort_js:
  assumes tot: "\<And>a b. cmp a b \<le> 0 \<or> cmp b a \<le> 0"
      and trans: "\<And>a b c. cmp a b \<le> 0 \<Longrightarrow> cmp b c \<le> 0 \<Longrightarrow> cmp a c \<le> 0"
  shows "sorted_wrt (\<lambda>a b. cmp a b \<le> 0) (sort_js cmp xs)"
proof (induction xs)
  case Nil
  then show ?case by (simp add: sort_js_def)
next
  case (Cons x xs)
  have "sort_js cmp (x # xs) = insert_js cmp x (sort_js cmp xs)" by (simp add: sort_js_def)
  with Cons sorted_insert_js [of cmp, OF tot trans] show ?case by simp
qed

lemma byCount_le:
  "byCount lc a b \<le> 0 \<longleftrightarrow>
     countFiles (snd b) < countFiles (snd a)
     \<or> (countFiles (snd b) = countFiles (snd a) \<and> lc (fst a) (fst b) \<le> 0)"
  by (auto simp: byCount_def Let_def)

lemma getSortedEntries_Count:
  "getSortedEntries lc m Count = sort_js (byCount lc) m"
  by (simp add: getSortedEntries_def)

lemma byCount_total:
  assumes "\<forall>a b. lc a b \<le> 0 \<or> lc b a \<le> 0"
  shows "byCount lc a b \<le> 0 \<or> byCount lc b a \<le> 0"
proof (cases "countFiles (snd a)" "countFiles (snd b)" rule: linorder_cases)
  case less
  then show ?thesis by (simp add: byCount_le)
next
  case equal
  with assms show ?thesis by (simp add: byCount_le)
next
  case greater
  then show ?thesis by (simp add: byCount_le)
qed

lemma byCount_trans:
  assumes "\<forall>a b c. lc a b \<le> 0 \<and> lc b c \<le> 0 \<longrightarrow> lc a c \<le> 0"
      and ab: "byCount lc a b \<le> 0" and bc: "byCount lc b c \<le> 0"
  shows "byCount lc a c \<le> 0"
proof -
  from ab have 1: "countFiles (snd b) < countFiles (snd a)
     \<or> (countFiles (snd b) = countFiles (snd a) \<and> lc (fst a) (fst b) \<le> 0)"
    by (simp only: byCount_le)
  from bc have 2: "countFiles (snd c) < countFiles (snd b)
     \<or> (countFiles (snd c) = countFiles (snd b) \<and> lc (fst b) (fst c) \<le> 0)"
    by (simp only: byCount_le)
  show ?thesis
  proof (cases "countFiles (snd c) < countFiles (snd a)")
    case True
    then show ?thesis by (simp add: byCount_le)
  next
    case False
    with 1 2 have e: "countFiles (snd b) = countFiles (snd a)" "countFiles (snd c) = countFiles (snd b)"
      and l: "lc (fst a) (fst b) \<le> 0" "lc (fst b) (fst c) \<le> 0"
      by linarith+
    from l assms have "lc (fst a) (fst c) \<le> 0" by blast
    with e show ?thesis by (simp add: byCount_le)
  qed
qed

lemma sorted_Count:
  assumes tot: "\<forall>a b. lc a b \<le> 0 \<or> lc b a \<le> 0"
      and trans: "\<forall>a b c. lc a b \<le> 0 \<and> lc b c \<le> 0 \<longrightarrow> lc a c \<le> 0"
  shows "sorted_wrt (\<lambda>a b. byCount lc a b \<le> 0) (getSortedEntries lc m Count)"
  unfolding getSortedEntries_Count
  by (rule sorted_sort_js) (use byCount_total [OF tot] byCount_trans [OF trans] in blast)+

text \<open>
  Claim C9. \<open>getSortedEntries\<close> returns for every children mapping and every mode: the
  empty sequence for the empty mapping, and always a permutation of the entries. When
  \<open>localeCompare\<close> is a consistent comparator (any two labels are comparable, and the
  order is transitive), the count mode lists the entries by descending count, and two
  entries with equal counts stand in ascending label order.
\<close>

theorem getSortedEntries_sorted:
  "getSortedEntries lc [] mode = []
   \<and> mset (getSortedEntries lc m mode) = mset m
   \<and> ((\<forall>a b. lc a b \<le> 0 \<or> lc b a \<le> 0) \<and> (\<forall>a b c. lc a b \<le> 0 \<and> lc b c \<le> 0 \<longrightarrow> lc a c \<le> 0) \<longrightarrow>
        (\<forall>i j. i < j \<and> j < length m \<longrightarrow>
           countFiles (snd (getSortedEntries lc m Count ! j))
             \<le> countFiles (snd (getSortedEntries lc m Count ! i))
           \<and> (countFiles (snd (getSortedEntries lc m Count ! i))
                = countFiles (snd (getSortedEntries lc m Count ! j)) \<longrightarrow>
              lc (fst (getSortedEntries lc m Count ! i)) (fst (getSortedEntries lc m Count ! j)) \<le> 0)))"
proof (intro conjI impI allI)
  show "getSortedEntries lc [] mode = []"
    by (cases mode) (simp_all add: getSortedEntries_def sort_js_def)
  show "mset (getSortedEntries lc m mode) = mset m"
    by (cases mode) (simp_all add: getSortedEntries_def mset_sort_js)
next
  fix i j
  assume c: "(\<forall>a b. lc a b \<le> 0 \<or> lc b a \<le> 0) \<and> (\<forall>a b c. lc a b \<le> 0 \<and> lc b c \<le> 0 \<longrightarrow> lc a c \<le> 0)"
     and ij: "i < j \<and> j < length m"
  let ?r = "getSortedEntries lc m Count"
  have "mset ?r = mset m"
    by (simp add: getSortedEntries_Count mset_sort_js)
  then have "length ?r = length m"
    by (rule mset_eq_length)
  moreover have "sorted_wrt (\<lambda>a b. byCount lc a b \<le> 0) ?r"
    using c by (intro sorted_Count) blast+
  ultimately have le: "byCount lc (?r ! i) (?r ! j) \<le> 0"
    using ij by (simp add: sorted_wrt_iff_nth_less)
  then show "countFiles (snd (?r ! j)) \<le> countFiles (snd (?r ! i))"
    by (auto simp: byCount_le)
  assume "countFiles (snd (?r ! i)) = countFiles (snd (?r ! j))"
  with le show "lc (fst (?r ! i)) (fst (?r ! j)) \<le> 0"
    by (auto simp: byCount_le)
qed

lemma compareUnits_total: "compareUnits a b \<le> 0 \<or> compareUnits b a \<le> 0"
  by (induction a b rule: compareUnits.induct) auto

lemma compareUnits_trans:
  "compareUnits a b \<le> 0 \<Longrightarrow> compareUnits b c \<le> 0 \<Longrightarrow> compareUnits a c \<le> 0"
proof (induction a b arbitrary: c rule: compareUnits.induct)
  case 1
  then show ?case by simp
next
  case (2 y ys)
  then show ?case by (cases c) auto
next
  case (3 x xs)
  then show ?case by simp
next
  case (4 x xs y ys)
  then show ?case by (cases c) (auto split: if_splits)
qed

theorem getSortedEntries_sorted_witness:
  "getSortedEntries compareUnits sortExample Count =
     [(js ''c'', GroupNode (js ''c'') 0 [] [js ''n3.md'', js ''n4.md'']),
      (js ''a'', GroupNode (js ''a'') 0 [] [js ''n2.md'']),
      (js ''b'', GroupNode (js ''b'') 0 [] [js ''n1.md''])]
   \<and> mset (getSortedEntries compareUnits sortExample Count) = mset sortExample
   \<and> countFiles (snd (getSortedEntries compareUnits sortExample Count ! 1))
       = countFiles (snd (getSortedEntries compareUnits sortExample Count ! 2))
   \<and> compareUnits (fst (getSortedEntries compareUnits sortExample Count ! 1))
        (fst (getSortedEntries compareUnits sortExample Count ! 2)) \<le> 0"
proof -
  let ?r = "getSortedEntries compareUnits sortExample Count"
  have r: "?r =
     [(js ''c'', GroupNode (js ''c'') 0 [] [js ''n3.md'', js ''n4.md'']),
      (js ''a'', GroupNode (js ''a'') 0 [] [js ''n2.md'']),
      (js ''b'', GroupNode (js ''b'') 0 [] [js ''n1.md''])]"
    by (simp add: getSortedEntries_def sort_js_def byCount_def sortExample_def js_def)
  have eq: "countFiles (snd (?r ! 1)) = countFiles (snd (?r ! 2))"
    by (simp add: r)
  have len: "(1::nat) < 2 \<and> 2 < length sortExample" by (simp add: sortExample_def)
  have cons: "(\<forall>a b. compareUnits a b \<le> 0 \<or> compareUnits b a \<le> 0)
      \<and> (\<forall>a b c. compareUnits a b \<le> 0 \<and> compareUnits b c \<le> 0 \<longrightarrow> compareUnits a c \<le> 0)"
    using compareUnits_total compareUnits_trans by blast
  from getSortedEntries_sorted [of compareUnits Count sortExample] cons len eq
  have "mset ?r = mset sortExample \<and> compareUnits (fst (?r ! 1)) (fst (?r ! 2)) \<le> 0"
    by blast
  with r eq show ?thesis by blast
qed

section \<open>collectTagsForFile\<close>

lemma set_setAdd: "set (setAdd xs x) = insert x (set xs)"
  by (auto simp: setAdd_def)

lemma distinct_setAdd: "distinct xs \<Longrightarrow> distinct (setAdd xs x)"
  by (simp add: setAdd_def)

lemma set_foldl_setAdd: "set (foldl setAdd acc xs) = set acc \<union> set xs"
  by (induction xs arbitrary: acc) (auto simp: set_setAdd)

lemma distinct_foldl_setAdd: "distinct acc \<Longrightarrow> distinct (foldl setAdd acc xs)"
  by (induction xs arbitrary: acc) (auto simp: distinct_setAdd)

lemma set_collectTagsForFile:
  "set (collectTagsForFile cache) =
     set (inline_of cache) \<union> normalizeTag ` set (frontmatterStrings cache)"
  by (cases "fmTags_of cache")
     (auto simp: collectTagsForFile_def frontmatterStrings_def set_foldl_setAdd set_setAdd)

lemma distinct_collectTagsForFile: "distinct (collectTagsForFile cache)"
  by (cases "fmTags_of cache")
     (auto simp: collectTagsForFile_def distinct_foldl_setAdd distinct_setAdd)

text \<open>
  What the classifier returns: the inline tag strings as the host supplies them and the
  normalisations of the frontmatter strings, each once. A frontmatter tag field that is
  missing or is neither a string nor an array contributes nothing. Where the inline
  tags are canonical (normalising them changes nothing, as for the tags of the host's
  cache), the result is the set of the specification, apart from the empty string.
\<close>

lemma collectTagsForFile_no_strings:
  assumes "\<forall>x. fmTags_of cache \<noteq> Str x" and "\<forall>ts. fmTags_of cache \<noteq> Arr ts"
  shows "set (collectTagsForFile cache) = set (inline_of cache)"
proof -
  from assms have "frontmatterStrings cache = []"
    by (cases "fmTags_of cache") (auto simp: frontmatterStrings_def)
  then show ?thesis by (simp add: set_collectTagsForFile)
qed

lemma normalize_spec_normalizeTag:
  "normalize_spec x = (if normalizeTag x = [] then None else Some (normalizeTag x))"
  by (simp add: normalize_spec_def normalizeTag_def Let_def js_hash)

lemma set_map_filter_normalize_spec:
  "set (List.map_filter normalize_spec xs) = normalizeTag ` set xs - {[]}"
  by (induction xs) (auto simp: List.map_filter_simps normalize_spec_normalizeTag)

lemma collectTagsForFile_canonical:
  assumes "\<forall>t \<in> set (inline_of cache). normalizeTag t = t"
  shows "set (collectTagsForFile cache) - {[]} = classify_spec cache"
proof -
  from assms have "normalizeTag ` set (inline_of cache) = set (inline_of cache)"
    by (auto simp: image_iff)
  then show ?thesis
    by (auto simp: classify_spec_def set_map_filter_normalize_spec set_collectTagsForFile)
qed

lemma collectTagsForFile_mixed:
  "collectTagsForFile cache_mixed = [js ''#x'', js ''#y'', js ''#7'', js ''#null'']"
  by (simp add: collectTagsForFile_def inline_of_def fmTags_of_def cache_mixed_def setAdd_def
        normalizeTag_def startsWith_def trim_def js_def isWhiteSpace_def whiteSpaceUnits_def)

text \<open>
  Claim C5 fails on the code. A frontmatter tag string that is empty after trimming is
  not discarded: \<open>collectTagsForFile\<close> adds its normalisation, the empty string, to the
  set (lines 726-727). For the file whose frontmatter tag field is one space and that
  has no inline tag, the code returns the set of the empty string, and the classifier
  of the specification returns the empty set.
\<close>

theorem collectTagsForFile_keeps_blank:
  "collectTagsForFile cache_blank = [[]] \<and> classify_spec cache_blank = {}"
  by (simp add: collectTagsForFile_def inline_of_def fmTags_of_def cache_blank_def
        classify_spec_def frontmatterStrings_def normalize_spec_def List.map_filter_simps
        normalizeTag_def setAdd_def startsWith_def trim_def js_def isWhiteSpace_def whiteSpaceUnits_def)

section \<open>The files of a tree\<close>

text \<open>
  \<open>nodeFiles\<close> has the files of all nodes (\<open>nodeFiles_nodes\<close>). A split, a level and a
  walk into the folder tree keep these files or add one: the lemmas follow the multiset
  of \<open>nodeFiles\<close> through \<open>bucketAdd\<close>, \<open>splitFiles\<close>, \<open>splitNode\<close>,
  \<open>propagateLevel\<close>, \<open>propagateLevels\<close>, \<open>addFileAt\<close> and the two loops of \<open>build\<close>, and
  show on the way that no step throws when every file of the tree has a tag set.
\<close>

lemma nodeFiles_childFiles: "nodeFiles (GroupNode n l ch fs) = fs @ childFiles ch"
  by (simp add: childFiles_def)

declare nodeFiles.simps [simp del]

lemma nodeFiles_sel: "nodeFiles node = files node @ childFiles (children node)"
  by (cases node) (simp add: nodeFiles_childFiles)

lemma childFiles_simps:
  "childFiles [] = []"
  "childFiles ((k, c) # ch) = nodeFiles c @ childFiles ch"
  "childFiles (xs @ ys) = childFiles xs @ childFiles ys"
  by (simp_all add: childFiles_def)

lemma nodeFiles_nodes: "mset (nodeFiles t) = mset (concat (map files (nodes t)))"
proof (induction t rule: nodes.induct)
  case (1 n l ch fs)
  then have "\<forall>(k, c) \<in> set ch. mset (nodeFiles c) = mset (concat (map files (nodes c)))"
    by blast
  then have "mset (childFiles ch) =
      mset (concat (map files (concat (map (\<lambda>(k, c). nodes c) ch))))"
    by (induction ch) (auto simp: childFiles_simps)
  then show ?case by (simp add: nodeFiles_childFiles)
qed

lemma update_absent: "map_of ch k = None \<Longrightarrow> AList.update k v ch = ch @ [(k, v)]"
  by (induction ch) (auto split: if_splits)

lemma update_present:
  "map_of ch k = Some b \<Longrightarrow>
     \<exists>pre post. ch = pre @ (k, b) # post \<and> (\<forall>v. AList.update k v ch = pre @ (k, v) # post)"
proof (induction ch)
  case Nil
  then show ?case by simp
next
  case (Cons p ch)
  show ?case
  proof (cases "fst p = k")
    case True
    with Cons.prems have "p = (k, b)" by (cases p) auto
    then have "p # ch = [] @ (k, b) # ch \<and> (\<forall>v. AList.update k v (p # ch) = [] @ (k, v) # ch)"
      by simp
    then show ?thesis by blast
  next
    case False
    with Cons obtain pre post where "ch = pre @ (k, b) # post"
      "\<forall>v. AList.update k v ch = pre @ (k, v) # post"
      by (cases p) auto
    with False have "p # ch = (p # pre) @ (k, b) # post
        \<and> (\<forall>v. AList.update k v (p # ch) = (p # pre) @ (k, v) # post)"
      by (cases p) auto
    then show ?thesis by blast
  qed
qed

lemma foldl_setAdd_fresh:
  "distinct fs \<Longrightarrow> set fs \<inter> set F = {} \<Longrightarrow> foldl setAdd F fs = F @ fs"
proof (induction fs arbitrary: F)
  case Nil
  then show ?case by simp
next
  case (Cons f fs)
  from Cons.prems have "setAdd F f = F @ [f]" by (simp add: setAdd_def)
  moreover from Cons.prems have "foldl setAdd (F @ [f]) fs = (F @ [f]) @ fs"
    by (intro Cons.IH) auto
  ultimately show ?case by simp
qed

lemma mset_childFiles_bucketAdd:
  assumes "distinct fs" "set fs \<inter> set (childFiles ch) = {}"
  shows "mset (childFiles (bucketAdd ch key li fs)) = mset (childFiles ch) + mset fs"
proof (cases "map_of ch key")
  case None
  with assms(1) show ?thesis
    by (simp add: bucketAdd_def update_absent childFiles_simps foldl_setAdd_fresh
          nodeFiles_childFiles)
next
  case (Some b)
  from update_present [OF Some] obtain pre post where
    ch: "ch = pre @ (key, b) # post" and
    up: "\<forall>v. AList.update key v ch = pre @ (key, v) # post"
    by blast
  from assms(2) ch have "set fs \<inter> set (files b) = {}"
    by (auto simp: childFiles_simps nodeFiles_sel [of b])
  with assms(1) have "foldl setAdd (files b) fs = files b @ fs"
    by (rule foldl_setAdd_fresh)
  then show ?thesis
    using Some by (simp add: bucketAdd_def up)
      (simp add: ch childFiles_simps nodeFiles_sel [of b] nodeFiles_childFiles)
qed

lemma splitFiles_defined:
  "\<forall>f \<in> set fs. fileTags f \<noteq> None \<Longrightarrow>
     \<exists>ch' rem'. splitFiles fileTags levelTags levelIdx fs ch remaining = Inr (ch', rem')"
proof (induction fs arbitrary: ch remaining)
  case Nil
  then show ?case by simp
next
  case (Cons f fs)
  from Cons.prems obtain ts where ts: "fileTags f = Some ts" by auto
  from Cons.prems have rest: "\<forall>f \<in> set fs. fileTags f \<noteq> None" by simp
  show ?case
    using Cons.IH [OF rest] by (simp add: ts tagMatchesAny_get_def)
qed

lemma bucketAdd_flat:
  assumes "\<forall>(k, c) \<in> set ch. children c = []"
  shows "\<forall>(k, c) \<in> set (bucketAdd ch key levelIdx fs). children c = []"
proof (cases "map_of ch key")
  case None
  with assms show ?thesis by (auto simp: bucketAdd_def update_absent)
next
  case (Some b)
  from update_present [OF Some] obtain pre post where
    ch: "ch = pre @ (key, b) # post" and
    up: "\<forall>v. AList.update key v ch = pre @ (key, v) # post"
    by blast
  from assms have "\<forall>(k, c) \<in> set (pre @ (key, b) # post). children c = []"
    by (simp only: ch)
  then show ?thesis using Some by (auto simp: bucketAdd_def up)
qed

lemma splitFiles_flat:
  "splitFiles fileTags levelTags levelIdx fs ch remaining = Inr (ch', rem') \<Longrightarrow>
   \<forall>(k, c) \<in> set ch. children c = [] \<Longrightarrow>
   \<forall>(k, c) \<in> set ch'. children c = []"
proof (induction fs arbitrary: ch remaining)
  case Nil
  then show ?case by simp
next
  case (Cons f fs)
  note flat = bucketAdd_flat [OF Cons.prems(2)]
  from Cons.prems(1) obtain m where m: "tagMatchesAny_get (fileTags f) levelTags = Inr m"
    by (auto split: sum.splits)
  show ?case
  proof (cases "truthy m")
    case True
    with Cons.prems(1) m
    have "splitFiles fileTags levelTags levelIdx fs
            (bucketAdd ch (stripHash (the m)) levelIdx [f]) remaining = Inr (ch', rem')"
      by simp
    then show ?thesis using flat by (rule Cons.IH)
  next
    case False
    with Cons.prems(1) m
    have "splitFiles fileTags levelTags levelIdx fs ch (remaining @ [f]) = Inr (ch', rem')"
      by simp
    then show ?thesis using Cons.prems(2) by (rule Cons.IH)
  qed
qed

lemma splitFiles_mset:
  "splitFiles fileTags levelTags levelIdx fs ch remaining = Inr (ch', rem') \<Longrightarrow>
   distinct (fs @ remaining @ childFiles ch) \<Longrightarrow>
   mset (rem' @ childFiles ch') = mset (fs @ remaining @ childFiles ch)"
proof (induction fs arbitrary: ch remaining)
  case Nil
  then show ?case by simp
next
  case (Cons f fs)
  from Cons.prems(1) obtain m where m: "tagMatchesAny_get (fileTags f) levelTags = Inr m"
    by (auto split: sum.splits)
  show ?case
  proof (cases "truthy m")
    case True
    let ?ch1 = "bucketAdd ch (stripHash (the m)) levelIdx [f]"
    from Cons.prems(1) m True
    have r: "splitFiles fileTags levelTags levelIdx fs ?ch1 remaining = Inr (ch', rem')"
      by simp
    from Cons.prems(2) have "mset (childFiles ?ch1) = mset (childFiles ch) + mset [f]"
      by (intro mset_childFiles_bucketAdd) auto
    then have e: "mset (fs @ remaining @ childFiles ?ch1) = mset ((f # fs) @ remaining @ childFiles ch)"
      by simp
    with Cons.prems(2) have "distinct (fs @ remaining @ childFiles ?ch1)"
      by (metis mset_eq_imp_distinct_iff)
    from Cons.IH [OF r this] e show ?thesis by simp
  next
    case False
    from Cons.prems(1) m False
    have r: "splitFiles fileTags levelTags levelIdx fs ch (remaining @ [f]) = Inr (ch', rem')"
      by simp
    from Cons.prems(2) have "distinct (fs @ (remaining @ [f]) @ childFiles ch)" by auto
    from Cons.IH [OF r this] show ?thesis by simp
  qed
qed

lemma leafOnly_flat: "children c = [] \<Longrightarrow> leafOnly c"
  by (cases c) simp

lemma splitNode_ok:
  assumes "children node = []" "distinct (files node)" "\<forall>f \<in> set (files node). fileTags f \<noteq> None"
  shows "\<exists>node'. splitNode node levelTags fileTags levelIdx = Inr node'
           \<and> leafOnly node' \<and> mset (nodeFiles node') = mset (files node)"
proof -
  from splitFiles_defined [OF assms(3)] obtain ch' rem' where
    sf: "splitFiles fileTags levelTags levelIdx (files node) (children node) [] = Inr (ch', rem')"
    by blast
  have flat: "\<forall>(k, c) \<in> set ch'. children c = []"
    using sf by (rule splitFiles_flat) (simp add: assms(1))
  have m: "mset (rem' @ childFiles ch') = mset (files node)"
    using splitFiles_mset [OF sf] assms(1,2) by (simp add: childFiles_simps)
  with assms(2) have d: "distinct (rem' @ childFiles ch')"
    by (metis mset_eq_imp_distinct_iff)
  let ?ch = "if rem' \<noteq> [] then bucketAdd ch' (js ''Others'') levelIdx rem' else ch'"
  have r: "splitNode node levelTags fileTags levelIdx = Inr (GroupNode (name node) (level node) ?ch [])"
    by (simp add: splitNode_def sf)
  have f2: "\<forall>(k, c) \<in> set ?ch. children c = []"
    using flat bucketAdd_flat [OF flat] by simp
  then have "\<forall>(k, c) \<in> set ?ch. leafOnly c"
    using leafOnly_flat by fastforce
  then have l: "leafOnly (GroupNode (name node) (level node) ?ch [])"
    by simp
  have "mset (childFiles ?ch) = mset (childFiles ch') + mset rem'"
  proof (cases "rem' = []")
    case True
    then show ?thesis by simp
  next
    case False
    from d have "mset (childFiles (bucketAdd ch' (js ''Others'') levelIdx rem')) =
        mset (childFiles ch') + mset rem'"
      by (intro mset_childFiles_bucketAdd) auto
    with False show ?thesis by simp
  qed
  with m have "mset (nodeFiles (GroupNode (name node) (level node) ?ch [])) = mset (files node)"
    by (simp add: nodeFiles_childFiles add.commute)
  with r l show ?thesis by blast
qed

lemma propagate_ok:
  "leafOnly node \<Longrightarrow> distinct (nodeFiles node) \<Longrightarrow> \<forall>f \<in> set (nodeFiles node). fileTags f \<noteq> None \<Longrightarrow>
     \<exists>node'. propagateLevel node levelTags fileTags levelIdx = Inr node'
        \<and> leafOnly node' \<and> mset (nodeFiles node') = mset (nodeFiles node)"
  "\<forall>(k, c) \<in> set ch. leafOnly c \<Longrightarrow> distinct (childFiles ch) \<Longrightarrow>
   \<forall>f \<in> set (childFiles ch). fileTags f \<noteq> None \<Longrightarrow>
     \<exists>ch'. propagateChildren ch levelTags fileTags levelIdx = Inr ch'
        \<and> (\<forall>(k, c) \<in> set ch'. leafOnly c) \<and> mset (childFiles ch') = mset (childFiles ch)"
proof (induction node levelTags fileTags levelIdx and ch levelTags fileTags levelIdx
       rule: propagateLevel_propagateChildren.induct)
  case (1 n l ch fs levelTags fileTags levelIdx)
  show ?case
  proof (cases "fs = []")
    case True
    from "1.prems" True have "\<forall>(k, c) \<in> set ch. leafOnly c" "distinct (childFiles ch)"
      "\<forall>f \<in> set (childFiles ch). fileTags f \<noteq> None"
      by (simp_all add: nodeFiles_childFiles)
    from "1.IH" [OF True this] obtain ch' where
      "propagateChildren ch levelTags fileTags levelIdx = Inr ch'"
      "\<forall>(k, c) \<in> set ch'. leafOnly c" "mset (childFiles ch') = mset (childFiles ch)"
      by blast
    with True show ?thesis by (simp add: nodeFiles_childFiles)
  next
    case False
    with "1.prems"(1) have ch: "ch = []" by simp
    have "\<exists>node'. splitNode (GroupNode n l ch fs) levelTags fileTags levelIdx = Inr node'
           \<and> leafOnly node' \<and> mset (nodeFiles node') = mset (files (GroupNode n l ch fs))"
      using "1.prems" ch by (intro splitNode_ok) (simp_all add: nodeFiles_childFiles)
    with False ch show ?thesis by (simp add: nodeFiles_childFiles childFiles_simps)
  qed
next
  case (2 levelTags fileTags levelIdx)
  then show ?case by simp
next
  case (3 k child rest levelTags fileTags levelIdx)
  from "3.prems" have pc: "leafOnly child" "distinct (nodeFiles child)"
    "\<forall>f \<in> set (nodeFiles child). fileTags f \<noteq> None"
    and pr: "\<forall>(k, c) \<in> set rest. leafOnly c" "distinct (childFiles rest)"
    "\<forall>f \<in> set (childFiles rest). fileTags f \<noteq> None"
    by (simp_all add: childFiles_simps)
  from "3.IH"(1) [OF pc] obtain child' where
    c: "propagateLevel child levelTags fileTags levelIdx = Inr child'"
    "leafOnly child'" "mset (nodeFiles child') = mset (nodeFiles child)"
    by blast
  from "3.IH"(2) [OF c(1) pr] obtain rest' where
    r: "propagateChildren rest levelTags fileTags levelIdx = Inr rest'"
    "\<forall>(k, c) \<in> set rest'. leafOnly c" "mset (childFiles rest') = mset (childFiles rest)"
    by blast
  from c r show ?case by (simp add: childFiles_simps)
qed

lemma foldl_fileTags:
  "foldl (\<lambda>m f. m(f \<mapsto> g f)) m0 md f = (if f \<in> set md then Some (g f) else m0 f)"
  by (induction md arbitrary: m0) auto

lemma fileTagsOf_apply:
  "fileTagsOf getFileCache mdFiles f =
     (if f \<in> set mdFiles then Some (collectTagsForFile (getFileCache f)) else None)"
  by (simp add: fileTagsOf_def foldl_fileTags)

lemma foldl_select:
  "set (foldl (\<lambda>acc f. if P f then setAdd acc f else acc) acc md) = set acc \<union> {f \<in> set md. P f}"
  "distinct acc \<Longrightarrow> distinct (foldl (\<lambda>acc f. if P f then setAdd acc f else acc) acc md)"
  by (induction md arbitrary: acc) (auto simp: set_setAdd distinct_setAdd)

lemma matchedFiles_props:
  "set (matchedFiles fileTags mdFiles lvls) \<subseteq> set mdFiles"
  "distinct (matchedFiles fileTags mdFiles lvls)"
  by (auto simp: matchedFiles_def foldl_select)

lemma propagateLevels_ok:
  "leafOnly root \<Longrightarrow> distinct (nodeFiles root) \<Longrightarrow> \<forall>f \<in> set (nodeFiles root). fileTags f \<noteq> None \<Longrightarrow>
     \<exists>t. propagateLevels root lvls fileTags lv = Inr t
        \<and> leafOnly t \<and> mset (nodeFiles t) = mset (nodeFiles root)"
proof (induction lvls arbitrary: root lv)
  case Nil
  then show ?case by simp
next
  case (Cons levelCfg rest)
  from propagate_ok(1) [OF Cons.prems, of "tags levelCfg" lv] obtain root' where
    p: "propagateLevel root (tags levelCfg) fileTags lv = Inr root'"
    "leafOnly root'" "mset (nodeFiles root') = mset (nodeFiles root)"
    by blast
  from p(3) Cons.prems(2) have d: "distinct (nodeFiles root')"
    by (metis mset_eq_imp_distinct_iff)
  from p(3) have "set (nodeFiles root') = set (nodeFiles root)" by (rule mset_eq_setD)
  with Cons.prems(3) have a: "\<forall>f \<in> set (nodeFiles root'). fileTags f \<noteq> None" by simp
  from Cons.IH [OF p(2) d a, of "lv + 1"] p show ?case by simp
qed

lemma mset_childFiles_update_absent:
  "map_of ch k = None \<Longrightarrow>
     mset (childFiles (AList.update k v ch)) = mset (childFiles ch) + mset (nodeFiles v)"
  by (simp add: update_absent childFiles_simps)

lemma mset_childFiles_update_present:
  assumes "map_of ch k = Some b"
  shows "mset (childFiles (AList.update k v ch)) + mset (nodeFiles b) =
           mset (childFiles ch) + mset (nodeFiles v)"
proof -
  from update_present [OF assms] obtain pre post where
    "ch = pre @ (k, b) # post" "\<forall>v. AList.update k v ch = pre @ (k, v) # post"
    by blast
  then show ?thesis by (simp add: childFiles_simps)
qed

lemma nodeFiles_present_subset:
  assumes "map_of ch k = Some b"
  shows "set (nodeFiles b) \<subseteq> set (childFiles ch)"
proof -
  from update_present [OF assms] obtain pre post where "ch = pre @ (k, b) # post"
    by blast
  then show ?thesis by (auto simp: childFiles_simps)
qed

lemma mset_addFileAt:
  "tf \<notin> set (nodeFiles node) \<Longrightarrow>
     mset (nodeFiles (addFileAt node parts tf)) = add_mset tf (mset (nodeFiles node))"
proof (induction node parts tf rule: addFileAt.induct)
  case (1 n l ch fs tf)
  then show ?case by (simp add: nodeFiles_childFiles setAdd_def)
next
  case (2 n l ch fs folderName parts tf)
  show ?case
  proof (cases "map_of ch folderName")
    case None
    let ?next = "GroupNode folderName (l + 1) [] [] :: 'a GroupNode"
    have "mset (nodeFiles (addFileAt ?next parts tf)) = add_mset tf (mset (nodeFiles ?next))"
      using None by (intro "2.IH") (simp_all add: nodeFiles_childFiles childFiles_simps)
    with None show ?thesis
      by (simp add: nodeFiles_childFiles mset_childFiles_update_absent childFiles_simps)
  next
    case (Some c)
    from nodeFiles_present_subset [OF Some] "2.prems" have "tf \<notin> set (nodeFiles c)"
      by (auto simp: nodeFiles_childFiles)
    then have "mset (nodeFiles (addFileAt c parts tf)) = add_mset tf (mset (nodeFiles c))"
      using Some by (intro "2.IH") simp_all
    with mset_childFiles_update_present [OF Some, of "addFileAt c parts tf"]
    have "mset (childFiles (AList.update folderName (addFileAt c parts tf) ch)) =
        add_mset tf (mset (childFiles ch))"
      by simp
    with Some show ?thesis by (simp add: nodeFiles_childFiles)
  qed
qed

lemma mset_folder_loop:
  "distinct allFiles \<Longrightarrow> set allFiles \<inter> set (nodeFiles root) = {} \<Longrightarrow>
     mset (nodeFiles (foldl (\<lambda>folderRoot f.
        if f \<in> set matched then folderRoot else addFileToFolderTree folderRoot (path f) f)
       root allFiles)) =
     mset (nodeFiles root) + mset (filter (\<lambda>f. f \<notin> set matched) allFiles)"
proof (induction allFiles arbitrary: root)
  case Nil
  then show ?case by simp
next
  case (Cons f fs)
  show ?case
  proof (cases "f \<in> set matched")
    case True
    with Cons show ?thesis by simp
  next
    case False
    let ?r = "addFileToFolderTree root (path f) f"
    from Cons.prems have m: "mset (nodeFiles ?r) = add_mset f (mset (nodeFiles root))"
      unfolding addFileToFolderTree_def by (intro mset_addFileAt) simp
    then have "set (nodeFiles ?r) = insert f (set (nodeFiles root))"
      by (metis mset_eq_setD set_mset_add_mset_insert set_mset_mset)
    with Cons.prems have "set fs \<inter> set (nodeFiles ?r) = {}" "distinct fs" by auto
    from Cons.IH [OF this(2,1)] m False show ?thesis by simp
  qed
qed

lemma mset_folderTree:
  "distinct allFiles \<Longrightarrow>
     mset (nodeFiles (folderTree path allFiles matched)) =
       mset (filter (\<lambda>f. f \<notin> set matched) allFiles)"
  unfolding folderTree_def
  by (subst mset_folder_loop) (simp_all add: nodeFiles_childFiles childFiles_simps)

lemma addFileAt_present: "holdsAt node parts f \<Longrightarrow> addFileAt node parts f = node"
proof (induction node parts f rule: addFileAt.induct)
  case (1 n l ch fs f)
  then show ?case by (simp add: setAdd_def)
next
  case (2 n l ch fs folderName parts f)
  from "2.prems" obtain c where c: "map_of ch folderName = Some c" "holdsAt c parts f"
    by (auto split: option.splits)
  from "2.IH" [of c] c have "addFileAt c parts f = c" by simp
  with c(1) show ?case by (simp add: update_triv)
qed

lemma holdsAt_addFileAt: "holdsAt (addFileAt node parts f) parts f"
proof (induction node parts f rule: addFileAt.induct)
  case (1 n l ch fs f)
  then show ?case by (simp add: set_setAdd)
next
  case (2 n l ch fs folderName parts f)
  show ?case
  proof (cases "map_of ch folderName")
    case None
    with "2.IH" [of "GroupNode folderName (l + 1) [] []"] show ?thesis
      by (simp add: update_conv')
  next
    case (Some c)
    with "2.IH" [of c] show ?thesis by (simp add: update_conv')
  qed
qed

lemma holdsAt_kept: "holdsAt node qs g \<Longrightarrow> holdsAt (addFileAt node parts f) qs g"
proof (induction node parts f arbitrary: qs rule: addFileAt.induct)
  case (1 n l ch fs f)
  then show ?case by (cases qs) (simp_all add: set_setAdd)
next
  case (2 n l ch fs folderName parts f)
  show ?case
  proof (cases qs)
    case Nil
    with "2.prems" show ?thesis by (simp add: Let_def)
  next
    case (Cons k qs')
    with "2.prems" obtain c where c: "map_of ch k = Some c" "holdsAt c qs' g"
      by (auto split: option.splits)
    show ?thesis
    proof (cases "k = folderName")
      case True
      with c "2.IH" [of c qs'] have "holdsAt (addFileAt c parts f) qs' g" by simp
      with True c(1) Cons show ?thesis by (simp add: update_conv')
    next
      case False
      with c Cons show ?thesis by (simp add: Let_def update_conv')
    qed
  qed
qed

lemma folder_loop_set:
  assumes "distinct (nodeFiles root)"
      and "\<forall>g \<in> set (nodeFiles root). holdsAt root (butlast (split 0x2F (path g))) g"
  shows "distinct (nodeFiles (foldl (\<lambda>folderRoot f.
        if f \<in> set matched then folderRoot else addFileToFolderTree folderRoot (path f) f)
       root allFiles))
     \<and> set (nodeFiles (foldl (\<lambda>folderRoot f.
        if f \<in> set matched then folderRoot else addFileToFolderTree folderRoot (path f) f)
       root allFiles)) = set (nodeFiles root) \<union> {f \<in> set allFiles. f \<notin> set matched}"
  using assms
proof (induction allFiles arbitrary: root)
  case Nil
  then show ?case by simp
next
  case (Cons f fs)
  let ?step = "\<lambda>folderRoot f.
        if f \<in> set matched then folderRoot else addFileToFolderTree folderRoot (path f) f"
  show ?case
  proof (cases "f \<in> set matched")
    case True
    with Cons.IH [OF Cons.prems] show ?thesis by auto
  next
    case False
    let ?r = "addFileToFolderTree root (path f) f"
    have r: "distinct (nodeFiles ?r) \<and> set (nodeFiles ?r) = insert f (set (nodeFiles root))
      \<and> (\<forall>g \<in> set (nodeFiles ?r). holdsAt ?r (butlast (split 0x2F (path g))) g)"
    proof (cases "f \<in> set (nodeFiles root)")
      case True
      with Cons.prems(2) have "?r = root"
        unfolding addFileToFolderTree_def by (intro addFileAt_present) blast
      with True Cons.prems show ?thesis by auto
    next
      case nin: False
      then have m: "mset (nodeFiles ?r) = add_mset f (mset (nodeFiles root))"
        unfolding addFileToFolderTree_def by (rule mset_addFileAt)
      then have s: "set (nodeFiles ?r) = insert f (set (nodeFiles root))"
        by (metis mset_eq_setD set_mset_add_mset_insert set_mset_mset)
      from m nin Cons.prems(1) have d: "distinct (nodeFiles ?r)"
        by (metis distinct.simps(2) mset.simps(2) mset_eq_imp_distinct_iff)
      have "holdsAt ?r (butlast (split 0x2F (path g))) g" if "g \<in> set (nodeFiles ?r)" for g
      proof (cases "g = f")
        case True
        then show ?thesis unfolding addFileToFolderTree_def by (simp add: holdsAt_addFileAt)
      next
        case False
        with that s Cons.prems(2) have "holdsAt root (butlast (split 0x2F (path g))) g" by auto
        then show ?thesis unfolding addFileToFolderTree_def by (rule holdsAt_kept)
      qed
      with d s show ?thesis by blast
    qed
    from r have "distinct (nodeFiles ?r)"
      "\<forall>g \<in> set (nodeFiles ?r). holdsAt ?r (butlast (split 0x2F (path g))) g"
      by blast+
    from Cons.IH [OF this] r False show ?thesis by auto
  qed
qed

lemma folderTree_files:
  "distinct (nodeFiles (folderTree path allFiles matched))
   \<and> set (nodeFiles (folderTree path allFiles matched)) = {f \<in> set allFiles. f \<notin> set matched}"
  unfolding folderTree_def
  using folder_loop_set [of "GroupNode (js ''root'') (- 1) [] []" path matched allFiles]
  by (simp add: nodeFiles_childFiles childFiles_simps)

lemma build_ok:
  "\<exists>tagsRoot. build path getFileCache allFiles mdFiles lvls =
       Inr (tagsRoot, folderTree path allFiles
              (matchedFiles (fileTagsOf getFileCache mdFiles) mdFiles lvls))
     \<and> leafOnly tagsRoot
     \<and> mset (nodeFiles tagsRoot) =
         mset (matchedFiles (fileTagsOf getFileCache mdFiles) mdFiles lvls)"
proof -
  let ?ft = "fileTagsOf getFileCache mdFiles"
  let ?m = "matchedFiles ?ft mdFiles lvls"
  let ?root = "GroupNode (js ''root'') (- 1) [] ?m"
  have "leafOnly ?root" by simp
  moreover have "distinct (nodeFiles ?root)"
    by (simp add: nodeFiles_childFiles childFiles_simps matchedFiles_props)
  moreover have "\<forall>f \<in> set (nodeFiles ?root). ?ft f \<noteq> None"
    using matchedFiles_props(1) [of ?ft mdFiles lvls]
    by (auto simp: nodeFiles_childFiles childFiles_simps fileTagsOf_apply)
  ultimately obtain t where "propagateLevels ?root lvls ?ft 0 = Inr t" "leafOnly t"
    "mset (nodeFiles t) = mset (nodeFiles ?root)"
    using propagateLevels_ok by blast
  then show ?thesis
    by (simp add: build_def Let_def nodeFiles_childFiles childFiles_simps)
qed

section \<open>The two trees of build\<close>

lemmas string_eval = js_def startsWith_def trim_def isWhiteSpace_def whiteSpaceUnits_def
  normalizeTag_def stripHash_def setAdd_def

lemma example_build:
  "build (\<lambda>p. p) exampleCache exampleFiles exampleFiles exampleLevels =
     Inr (exampleTagTree, exampleFolderTree)"
  by (simp add: build_def fileTagsOf_def matchedFiles_def folderTree_def addFileToFolderTree_def
        exampleCache_def exampleFiles_def exampleLevels_def exampleTagTree_def exampleFolderTree_def
        collectTagsForFile_def inline_of_def fmTags_of_def tagMatchesAny_get_def truthy_def
        splitNode_def bucketAdd_def string_eval)

lemma countFiles_length:
  "countFiles (node :: 'f GroupNode) = length (nodeFiles node)"
  "countChildren sum_n (ch :: (jsstring \<times> 'f GroupNode) list) = sum_n + length (childFiles ch)"
  by (induction node and sum_n ch rule: countFiles_countChildren.induct)
     (simp_all add: nodeFiles_childFiles childFiles_simps)

lemma countChildren_sum:
  "countChildren sum_n ch = sum_n + sum_list (map (\<lambda>(k, c). countFiles c) ch)"
  by (induction ch arbitrary: sum_n) auto

lemma leafOnly_nodes: "leafOnly t \<Longrightarrow> n \<in> set (nodes t) \<Longrightarrow> children n \<noteq> [] \<Longrightarrow> files n = []"
  by (induction t arbitrary: n rule: leafOnly.induct) fastforce

lemma leafOnly_terminalBuckets: "leafOnly t \<Longrightarrow> terminalBuckets t"
  using leafOnly_nodes by (auto simp: terminalBuckets_def)

lemma mset_filter_split: "mset (filter P xs) + mset (filter (\<lambda>x. \<not> P x) xs) = mset xs"
  by (induction xs) auto

lemma renderTree_build:
  "renderTree path getFileCache [] mdFiles lvls = Inr None"
  "allFiles \<noteq> [] \<Longrightarrow>
     \<exists>tagsRoot folderRoot.
       build path getFileCache allFiles mdFiles lvls = Inr (tagsRoot, folderRoot)
       \<and> renderTree path getFileCache allFiles mdFiles lvls = Inr (Some (tagsRoot, folderRoot))"
  using build_ok [of path getFileCache allFiles mdFiles lvls]
  by (auto simp: renderTree_def)

text \<open>
  Claim C1. For every file collection, every metadata cache and every level list,
  \<open>build\<close> returns two trees; no file stands at two places of the Tag Tree or at two
  places of the Folder Tree, no file stands in both trees, and every file of the
  collection stands in one of them.
\<close>

theorem build_partition:
  "\<exists>tagsRoot folderRoot.
     build path getFileCache allFiles mdFiles lvls = Inr (tagsRoot, folderRoot)
     \<and> distinct (nodeFiles tagsRoot) \<and> distinct (nodeFiles folderRoot)
     \<and> set (nodeFiles tagsRoot) \<inter> set (nodeFiles folderRoot) = {}
     \<and> set allFiles \<subseteq> set (nodeFiles tagsRoot) \<union> set (nodeFiles folderRoot)"
proof -
  let ?m = "matchedFiles (fileTagsOf getFileCache mdFiles) mdFiles lvls"
  let ?fo = "folderTree path allFiles ?m"
  from build_ok [of path getFileCache allFiles mdFiles lvls] obtain t where
    b: "build path getFileCache allFiles mdFiles lvls = Inr (t, ?fo)"
    and mt: "mset (nodeFiles t) = mset ?m"
    by blast
  have dt: "distinct (nodeFiles t)"
    using mt matchedFiles_props(2) [of "fileTagsOf getFileCache mdFiles" mdFiles lvls]
    by (metis mset_eq_imp_distinct_iff)
  have df: "distinct (nodeFiles ?fo)"
    and sf: "set (nodeFiles ?fo) = {f \<in> set allFiles. f \<notin> set ?m}"
    using folderTree_files [of path allFiles ?m] by blast+
  have st: "set (nodeFiles t) = set ?m" using mt by (rule mset_eq_setD)
  from st sf have "set (nodeFiles t) \<inter> set (nodeFiles ?fo) = {}"
    "set allFiles \<subseteq> set (nodeFiles t) \<union> set (nodeFiles ?fo)"
    by auto
  with b dt df show ?thesis by blast
qed

theorem build_partition_witness:
  "build (\<lambda>p. p) exampleCache exampleFiles exampleFiles exampleLevels =
     Inr (exampleTagTree, exampleFolderTree)
   \<and> distinct (nodeFiles exampleTagTree) \<and> distinct (nodeFiles exampleFolderTree)
   \<and> set (nodeFiles exampleTagTree) \<inter> set (nodeFiles exampleFolderTree) = {}
   \<and> set exampleFiles \<subseteq> set (nodeFiles exampleTagTree) \<union> set (nodeFiles exampleFolderTree)"
  using build_partition [of "\<lambda>p. p" exampleCache exampleFiles exampleFiles exampleLevels]
  by (simp add: example_build)

text \<open>
  Claim C2. \<open>countFiles\<close> of a node is the size of its own file set plus the sum of
  \<open>countFiles\<close> over its children. For every collection of distinct files of which the
  markdown files are a part, \<open>build\<close> returns two trees whose root counts add up to the
  number of files.
\<close>

theorem countFiles_total:
  "countFiles node = length (files node) + sum_list (map (\<lambda>(k, c). countFiles c) (children node))
   \<and> (distinct allFiles \<and> set mdFiles \<subseteq> set allFiles \<longrightarrow>
        (\<exists>tagsRoot folderRoot.
           build path getFileCache allFiles mdFiles lvls = Inr (tagsRoot, folderRoot)
           \<and> countFiles tagsRoot + countFiles folderRoot = length allFiles))"
proof (intro conjI impI)
  show "countFiles node = length (files node) + sum_list (map (\<lambda>(k, c). countFiles c) (children node))"
    by (cases node) (simp add: countChildren_sum)
next
  assume a: "distinct allFiles \<and> set mdFiles \<subseteq> set allFiles"
  let ?m = "matchedFiles (fileTagsOf getFileCache mdFiles) mdFiles lvls"
  let ?fo = "folderTree path allFiles ?m"
  from build_ok [of path getFileCache allFiles mdFiles lvls] obtain t where
    b: "build path getFileCache allFiles mdFiles lvls = Inr (t, ?fo)"
    and mt: "mset (nodeFiles t) = mset ?m"
    by blast
  have mf: "mset (nodeFiles ?fo) = mset (filter (\<lambda>f. f \<notin> set ?m) allFiles)"
    using a by (intro mset_folderTree) simp
  have sub: "set ?m \<subseteq> set allFiles"
    using matchedFiles_props(1) [of "fileTagsOf getFileCache mdFiles" mdFiles lvls] a by blast
  have "mset ?m = mset (filter (\<lambda>f. f \<in> set ?m) allFiles)"
  proof (rule set_eq_iff_mset_eq_distinct [THEN iffD1])
    show "distinct ?m" by (rule matchedFiles_props(2))
    show "distinct (filter (\<lambda>f. f \<in> set ?m) allFiles)" using a by simp
    show "set ?m = set (filter (\<lambda>f. f \<in> set ?m) allFiles)" using sub by auto
  qed
  with mt mf have "mset (nodeFiles t) + mset (nodeFiles ?fo) = mset allFiles"
    using mset_filter_split [of "\<lambda>f. f \<in> set ?m" allFiles] by (simp del: mset_filter)
  then have "size (mset (nodeFiles t) + mset (nodeFiles ?fo)) = size (mset allFiles)"
    by simp
  then have "countFiles t + countFiles ?fo = length allFiles"
    by (simp add: countFiles_length)
  with b show "\<exists>tagsRoot folderRoot.
           build path getFileCache allFiles mdFiles lvls = Inr (tagsRoot, folderRoot)
           \<and> countFiles tagsRoot + countFiles folderRoot = length allFiles"
    by blast
qed

theorem countFiles_total_witness:
  "countFiles exampleTagTree = 2 \<and> countFiles exampleFolderTree = 1
   \<and> countFiles exampleTagTree + countFiles exampleFolderTree = length exampleFiles"
proof -
  have "distinct exampleFiles \<and> set exampleFiles \<subseteq> set exampleFiles"
    by (simp add: exampleFiles_def js_def)
  with countFiles_total [of exampleTagTree exampleFiles exampleFiles "\<lambda>p. p" exampleCache exampleLevels]
  have "countFiles exampleTagTree + countFiles exampleFolderTree = length exampleFiles"
    by (simp add: example_build)
  moreover have "countFiles exampleTagTree = 2" "countFiles exampleFolderTree = 1"
    by (simp_all add: exampleTagTree_def exampleFolderTree_def)
  ultimately show ?thesis by simp
qed

text \<open>
  Claim C6, as the code has it. In the Tag Tree that \<open>build\<close> returns, every node with
  a non-empty children mapping has an empty file set of its own.
\<close>

theorem tag_tree_terminal_buckets:
  "\<exists>tagsRoot folderRoot.
     build path getFileCache allFiles mdFiles lvls = Inr (tagsRoot, folderRoot)
     \<and> terminalBuckets tagsRoot"
  using build_ok [of path getFileCache allFiles mdFiles lvls] leafOnly_terminalBuckets
  by blast

theorem tag_tree_terminal_buckets_witness:
  "build (\<lambda>p. p) exampleCache exampleFiles exampleFiles exampleLevels =
     Inr (exampleTagTree, exampleFolderTree)
   \<and> terminalBuckets exampleTagTree"
  using tag_tree_terminal_buckets [of "\<lambda>p. p" exampleCache exampleFiles exampleFiles exampleLevels]
  by (simp add: example_build)

text \<open>
  The Folder Tree mirrors the folders: the folder \<open>a\<close> holds \<open>a/x.md\<close> next to its
  sub-folder \<open>b\<close>.
\<close>

theorem folder_tree_counterexample:
  "build (\<lambda>p. p) (\<lambda>f. None) folderFiles [] [] =
     Inr (GroupNode (js ''root'') (- 1) [] [], folderExampleTree)
   \<and> \<not> terminalBuckets folderExampleTree"
proof -
  have "build (\<lambda>p. p) (\<lambda>f. None) folderFiles [] [] =
     Inr (GroupNode (js ''root'') (- 1) [] [], folderExampleTree)"
    by (simp add: build_def fileTagsOf_def matchedFiles_def folderTree_def addFileToFolderTree_def
        folderFiles_def folderExampleTree_def string_eval)
  moreover have "\<not> terminalBuckets folderExampleTree"
    by (simp add: terminalBuckets_def folderExampleTree_def)
  ultimately show ?thesis by blast
qed

section \<open>The buckets of a split\<close>

lemma matchKey_get:
  "tagMatchesAny_get (fileTags f) levelTags = Inr m \<Longrightarrow>
     matchKey fileTags levelTags f = (if truthy m then Some (stripHash (the m)) else None)"
  by (auto simp: tagMatchesAny_get_def matchKey_def truthy_def split: option.splits if_splits)

lemma bucketFiles_Nil: "bucketFiles [] k = []"
  by (simp add: bucketFiles_def)

lemma bucketFiles_bucketAdd:
  "set (bucketFiles (bucketAdd ch key levelIdx fs) k) =
     set (bucketFiles ch k) \<union> (if k = key then set fs else {})"
  by (auto simp: bucketFiles_def bucketAdd_def update_conv' set_foldl_setAdd split: option.splits)

lemma bucketAdd_keys:
  "distinct (map fst ch) \<Longrightarrow> distinct (map fst (bucketAdd ch key levelIdx fs))"
  by (simp add: bucketAdd_def Let_def distinct_update)

lemma bucketAdd_names:
  assumes "\<forall>(k, c) \<in> set ch. name c = k"
  shows "\<forall>(k, c) \<in> set (bucketAdd ch key levelIdx fs). name c = k"
proof (cases "map_of ch key")
  case None
  with assms show ?thesis by (auto simp: bucketAdd_def update_absent)
next
  case (Some b)
  from update_present [OF Some] obtain pre post where
    ch: "ch = pre @ (key, b) # post" and
    up: "\<forall>v. AList.update key v ch = pre @ (key, v) # post"
    by blast
  from assms have "\<forall>(k, c) \<in> set (pre @ (key, b) # post). name c = k"
    by (simp only: ch)
  then show ?thesis using Some by (auto simp: bucketAdd_def up)
qed

lemma splitFiles_step:
  assumes "splitFiles fileTags levelTags levelIdx (f # fs) ch remaining = Inr (ch', rem')"
  shows "(\<exists>key. matchKey fileTags levelTags f = Some key
            \<and> splitFiles fileTags levelTags levelIdx fs (bucketAdd ch key levelIdx [f]) remaining
                = Inr (ch', rem'))
         \<or> (matchKey fileTags levelTags f = None
            \<and> splitFiles fileTags levelTags levelIdx fs ch (remaining @ [f]) = Inr (ch', rem'))"
proof -
  from assms obtain m where m: "tagMatchesAny_get (fileTags f) levelTags = Inr m"
    by (auto split: sum.splits)
  note mk = matchKey_get [of fileTags f levelTags m, OF m]
  show ?thesis
  proof (cases "truthy m")
    case True
    with assms m mk show ?thesis by simp
  next
    case False
    with assms m mk show ?thesis by simp
  qed
qed

lemma splitFiles_remaining:
  "splitFiles fileTags levelTags levelIdx fs ch remaining = Inr (ch', rem') \<Longrightarrow>
     rem' = remaining @ filter (\<lambda>f. matchKey fileTags levelTags f = None) fs"
proof (induction fs arbitrary: ch remaining)
  case Nil
  then show ?case by simp
next
  case (Cons f fs)
  from splitFiles_step [OF Cons.prems] show ?case
  proof (elim disjE exE conjE)
    fix key
    assume "matchKey fileTags levelTags f = Some key"
      "splitFiles fileTags levelTags levelIdx fs (bucketAdd ch key levelIdx [f]) remaining
         = Inr (ch', rem')"
    with Cons.IH [OF this(2)] show ?thesis by simp
  next
    assume "matchKey fileTags levelTags f = None"
      "splitFiles fileTags levelTags levelIdx fs ch (remaining @ [f]) = Inr (ch', rem')"
    with Cons.IH [OF this(2)] show ?thesis by simp
  qed
qed

lemma Collect_set_Cons:
  "{x \<in> set (f # fs). P x} = (if P f then {f} else {}) \<union> {x \<in> set fs. P x}"
  by auto

lemma splitFiles_bucketFiles:
  "splitFiles fileTags levelTags levelIdx fs ch remaining = Inr (ch', rem') \<Longrightarrow>
     set (bucketFiles ch' k) =
       set (bucketFiles ch k) \<union> {f \<in> set fs. matchKey fileTags levelTags f = Some k}"
proof (induction fs arbitrary: ch remaining)
  case Nil
  then show ?case by simp
next
  case (Cons f fs)
  let ?B = "{f \<in> set fs. matchKey fileTags levelTags f = Some k}"
  from splitFiles_step [OF Cons.prems] show ?case
  proof (elim disjE exE conjE)
    fix key
    assume a: "matchKey fileTags levelTags f = Some key"
      "splitFiles fileTags levelTags levelIdx fs (bucketAdd ch key levelIdx [f]) remaining
         = Inr (ch', rem')"
    have 1: "set (bucketFiles ch' k) =
        (set (bucketFiles ch k) \<union> (if k = key then set [f] else {})) \<union> ?B"
      using Cons.IH [OF a(2)] by (simp only: bucketFiles_bucketAdd)
    have 2: "{x \<in> set (f # fs). matchKey fileTags levelTags x = Some k} =
        (if k = key then set [f] else {}) \<union> ?B"
      unfolding Collect_set_Cons a(1) by (cases "k = key") simp_all
    show ?thesis unfolding 1 2 by (simp only: Un_assoc)
  next
    assume a: "matchKey fileTags levelTags f = None"
      "splitFiles fileTags levelTags levelIdx fs ch (remaining @ [f]) = Inr (ch', rem')"
    have 2: "{x \<in> set (f # fs). matchKey fileTags levelTags x = Some k} = ?B"
      unfolding Collect_set_Cons a(1) by simp
    show ?thesis unfolding 2 by (rule Cons.IH [OF a(2)])
  qed
qed

lemma splitFiles_keys:
  "splitFiles fileTags levelTags levelIdx fs ch remaining = Inr (ch', rem') \<Longrightarrow>
     distinct (map fst ch) \<Longrightarrow> distinct (map fst ch')"
proof (induction fs arbitrary: ch remaining)
  case Nil
  then show ?case by simp
next
  case (Cons f fs)
  from splitFiles_step [OF Cons.prems(1)] show ?case
  proof (elim disjE exE conjE)
    fix key
    assume "splitFiles fileTags levelTags levelIdx fs (bucketAdd ch key levelIdx [f]) remaining
         = Inr (ch', rem')"
    then show ?thesis using bucketAdd_keys [OF Cons.prems(2)] by (rule Cons.IH)
  next
    assume "splitFiles fileTags levelTags levelIdx fs ch (remaining @ [f]) = Inr (ch', rem')"
    then show ?thesis using Cons.prems(2) by (rule Cons.IH)
  qed
qed

lemma splitFiles_names:
  "splitFiles fileTags levelTags levelIdx fs ch remaining = Inr (ch', rem') \<Longrightarrow>
     \<forall>(k, c) \<in> set ch. name c = k \<Longrightarrow> \<forall>(k, c) \<in> set ch'. name c = k"
proof (induction fs arbitrary: ch remaining)
  case Nil
  then show ?case by simp
next
  case (Cons f fs)
  from splitFiles_step [OF Cons.prems(1)] show ?case
  proof (elim disjE exE conjE)
    fix key
    assume "splitFiles fileTags levelTags levelIdx fs (bucketAdd ch key levelIdx [f]) remaining
         = Inr (ch', rem')"
    then show ?thesis using bucketAdd_names [OF Cons.prems(2)] by (rule Cons.IH)
  next
    assume "splitFiles fileTags levelTags levelIdx fs ch (remaining @ [f]) = Inr (ch', rem')"
    then show ?thesis using Cons.prems(2) by (rule Cons.IH)
  qed
qed

lemma splitNode_buckets:
  assumes "splitNode node levelTags fileTags levelIdx = Inr node'" "children node = []"
  shows "(\<forall>k. set (bucketFiles (children node') k) =
            {f \<in> set (files node). matchKey fileTags levelTags f = Some k}
            \<union> (if k = js ''Others''
               then {f \<in> set (files node). matchKey fileTags levelTags f = None} else {}))
     \<and> distinct (map fst (children node'))
     \<and> (\<forall>(k, c) \<in> set (children node'). name c = k)
     \<and> files node' = []"
proof -
  from assms(1) obtain ch' rem' where
    sf: "splitFiles fileTags levelTags levelIdx (files node) (children node) [] = Inr (ch', rem')"
    and n': "node' = GroupNode (name node) (level node)
       (if rem' \<noteq> [] then bucketAdd ch' (js ''Others'') levelIdx rem' else ch') []"
    by (auto simp: splitNode_def split: sum.splits prod.splits)
  from splitFiles_bucketFiles [OF sf] assms(2)
  have b: "\<forall>k. set (bucketFiles ch' k) = {f \<in> set (files node). matchKey fileTags levelTags f = Some k}"
    by (simp add: bucketFiles_Nil)
  from splitFiles_remaining [OF sf]
  have r: "rem' = filter (\<lambda>f. matchKey fileTags levelTags f = None) (files node)"
    by simp
  from splitFiles_keys [OF sf] assms(2) have d: "distinct (map fst ch')" by simp
  from splitFiles_names [OF sf] assms(2) have nm: "\<forall>(k, c) \<in> set ch'. name c = k" by simp
  show ?thesis
  proof (cases "rem' = []")
    case True
    with r have "filter (\<lambda>f. matchKey fileTags levelTags f = None) (files node) = []"
      by simp
    then have e: "{f \<in> set (files node). matchKey fileTags levelTags f = None} = {}"
      by (simp add: filter_empty_conv)
    from True n' have c: "children node' = ch'" "files node' = []" by simp_all
    show ?thesis unfolding c e using b d nm by simp
  next
    case False
    with n' have c: "children node' = bucketAdd ch' (js ''Others'') levelIdx rem'"
      "files node' = []" by simp_all
    have s: "set rem' = {f \<in> set (files node). matchKey fileTags levelTags f = None}"
      by (simp add: r)
    have "\<forall>k. set (bucketFiles (bucketAdd ch' (js ''Others'') levelIdx rem') k) =
            {f \<in> set (files node). matchKey fileTags levelTags f = Some k}
            \<union> (if k = js ''Others''
               then {f \<in> set (files node). matchKey fileTags levelTags f = None} else {})"
      unfolding bucketFiles_bucketAdd s using b by simp
    then show ?thesis
      unfolding c
      using bucketAdd_keys [OF d, of "js ''Others''" levelIdx rem']
        bucketAdd_names [OF nm, of "js ''Others''" levelIdx rem']
      by blast
  qed
qed

lemma tagMatchesAny_member: "tagMatchesAny T wanted = Some w \<Longrightarrow> w \<in> set wanted"
  by (induction wanted) (auto split: if_splits)

lemma tagMatchesAny_first:
  "matchesPattern T w \<Longrightarrow> \<forall>p \<in> set pre. \<not> matchesPattern T p \<Longrightarrow>
     tagMatchesAny T (pre @ w # post) = Some w"
  by (induction pre) (auto simp: matchesPattern_def)

lemma propagateLevel_split:
  "files node \<noteq> [] \<Longrightarrow>
     propagateLevel node levelTags fileTags levelIdx = splitNode node levelTags fileTags levelIdx"
  by (cases node) simp

lemma splitNode_defined:
  assumes "\<forall>g \<in> set (files node). fileTags g \<noteq> None"
  shows "\<exists>node'. splitNode node levelTags fileTags levelIdx = Inr node'"
proof -
  from splitFiles_defined [OF assms] obtain ch' rem' where
    "splitFiles fileTags levelTags levelIdx (files node) (children node) [] = Inr (ch', rem')"
    by blast
  then show ?thesis by (simp add: splitNode_def)
qed

text \<open>
  The first pattern that matches. A level is applied to a node that holds files, has
  no children yet and whose files all have a tag set, as every node that \<open>build\<close>
  splits (the conditions that \<open>propagate_ok\<close> keeps, from \<open>build_ok\<close>). If \<open>w\<close> is the
  first pattern of the level, in list order, that matches the tags of a file of the
  node, and \<open>w\<close> is not the empty string, then the split returns, the labels of the new
  children are distinct, and the file is in the bucket labelled with the display form
  of \<open>w\<close> and in no bucket with another label, however many later patterns match as
  well.
\<close>

lemma first_pattern_wins:
  assumes "children node = []" and "f \<in> set (files node)"
      and "\<forall>g \<in> set (files node). fileTags g \<noteq> None"
      and "fileTags f = Some T"
      and "levelTags = pre @ w # post" and "matchesPattern T w"
      and "\<forall>p \<in> set pre. \<not> matchesPattern T p" and "w \<noteq> []"
  shows "\<exists>node'. propagateLevel node levelTags fileTags levelIdx = Inr node'
           \<and> distinct (map fst (children node'))
           \<and> (\<forall>k. f \<in> set (bucketFiles (children node') k) \<longleftrightarrow> k = stripHash w)"
proof -
  from assms(2) have ne: "files node \<noteq> []" by auto
  from splitNode_defined [OF assms(3)] obtain node' where
    s: "splitNode node levelTags fileTags levelIdx = Inr node'"
    by blast
  have "tagMatchesAny T levelTags = Some w"
    unfolding assms(5) using assms(6,7) by (rule tagMatchesAny_first)
  with assms(4,8) have mk: "matchKey fileTags levelTags f = Some (stripHash w)"
    by (simp add: matchKey_def)
  note b = splitNode_buckets [OF s assms(1), THEN conjunct1, rule_format]
  note d = splitNode_buckets [OF s assms(1), THEN conjunct2, THEN conjunct1]
  have "f \<in> set (bucketFiles (children node') k) \<longleftrightarrow> k = stripHash w" for k
    unfolding b [of k] using mk assms(2) by auto
  then have "\<forall>k. f \<in> set (bucketFiles (children node') k) \<longleftrightarrow> k = stripHash w" ..
  moreover from s ne have "propagateLevel node levelTags fileTags levelIdx = Inr node'"
    by (simp add: propagateLevel_split)
  ultimately show ?thesis using d by blast
qed

lemma stripHash_Others:
  "stripHash w = js ''Others'' \<longleftrightarrow> w = js ''#Others'' \<or> w = js ''Others''"
proof (cases "startsWith w (js ''#'')")
  case True
  then obtain r where w: "w = js ''#'' @ r" by (auto simp: startsWith_iff)
  have "length (js ''#'') = 1" by (simp add: js_def)
  with True w have s: "stripHash w = r" by (simp add: stripHash_def)
  have h1: "js ''#Others'' = js ''#'' @ js ''Others''" by (simp add: js_def)
  have h2: "\<not> startsWith (js ''Others'') (js ''#'')" by (simp add: startsWith_def js_def)
  from True h2 have "w \<noteq> js ''Others''" by blast
  then show ?thesis unfolding s h1 unfolding w by simp
next
  case False
  then have s: "stripHash w = w" by (simp add: stripHash_def)
  have "startsWith (js ''#Others'') (js ''#'')" by (simp add: startsWith_def js_def)
  with False have "w \<noteq> js ''#Others''" by blast
  then show ?thesis unfolding s by simp
qed

text \<open>
  Claim C4, as the code has it. A level is applied to a node that holds files, has no
  children yet and whose files all have a tag set, as every node that \<open>build\<close>
  splits. The split returns; every child carries its label as its name and
  the labels are distinct. A child with a label other than \<open>Others\<close> holds exactly the
  files whose pattern bucket has that label. The child with the fixed label \<open>Others\<close>
  holds the files without a pattern bucket and, with them, the files whose pattern
  bucket has the label \<open>Others\<close>. The patterns with that display form are \<open>#Others\<close> and
  \<open>Others\<close> and no other: a level that has neither of them gives no file a pattern bucket
  labelled \<open>Others\<close>.
\<close>

theorem unmatched_bucket_label:
  assumes "children node = []" and "files node \<noteq> []"
      and "\<forall>g \<in> set (files node). fileTags g \<noteq> None"
  shows "\<exists>node'. propagateLevel node levelTags fileTags levelIdx = Inr node'
           \<and> (\<forall>(k, c) \<in> set (children node'). name c = k)
           \<and> distinct (map fst (children node'))
           \<and> (\<forall>k. set (bucketFiles (children node') k) =
                 {g \<in> set (files node). matchKey fileTags levelTags g = Some k}
                 \<union> (if k = js ''Others''
                    then {g \<in> set (files node). matchKey fileTags levelTags g = None}
                    else {}))
           \<and> (\<forall>w. stripHash w = js ''Others'' \<longleftrightarrow> w = js ''#Others'' \<or> w = js ''Others'')
           \<and> (js ''#Others'' \<notin> set levelTags \<and> js ''Others'' \<notin> set levelTags \<longrightarrow>
                (\<forall>g. matchKey fileTags levelTags g \<noteq> Some (js ''Others'')))"
proof -
  from splitNode_defined [OF assms(3)] obtain node' where
    s: "splitNode node levelTags fileTags levelIdx = Inr node'"
    by blast
  have no: "js ''#Others'' \<notin> set levelTags \<and> js ''Others'' \<notin> set levelTags \<longrightarrow>
      (\<forall>g. matchKey fileTags levelTags g \<noteq> Some (js ''Others''))"
  proof (intro impI allI notI)
    fix g
    assume a: "js ''#Others'' \<notin> set levelTags \<and> js ''Others'' \<notin> set levelTags"
      and "matchKey fileTags levelTags g = Some (js ''Others'')"
    then obtain ts w where m: "tagMatchesAny ts levelTags = Some w" "stripHash w = js ''Others''"
      by (auto simp: matchKey_def split: option.splits if_splits)
    from m(2) have "w = js ''#Others'' \<or> w = js ''Others''" by (simp only: stripHash_Others)
    with a tagMatchesAny_member [OF m(1)] show False by blast
  qed
  have sh: "\<forall>w. stripHash w = js ''Others'' \<longleftrightarrow> w = js ''#Others'' \<or> w = js ''Others''"
    by (intro allI) (rule stripHash_Others)
  note b = splitNode_buckets [OF s assms(1), THEN conjunct1]
  note d = splitNode_buckets [OF s assms(1), THEN conjunct2, THEN conjunct1]
  note nm = splitNode_buckets [OF s assms(1), THEN conjunct2, THEN conjunct2, THEN conjunct1]
  from s assms(2) have p: "propagateLevel node levelTags fileTags levelIdx = Inr node'"
    by (simp add: propagateLevel_split)
  show ?thesis
    by (intro exI [of _ node'] conjI) (fact p nm d b sh no)+
qed

section \<open>The examples of the split\<close>

text \<open>Rules that evaluate the functions on the example data.\<close>

lemma tagMatchesAny_list_ex:
  "tagMatchesAny tagSet (w # wanted) =
     (if list_ex (\<lambda>t. t = w \<or> startsWith t (w @ js ''/'')) tagSet then Some w
      else tagMatchesAny tagSet wanted)"
  by (simp add: list_ex_iff)

lemmas tree_eval = build_def fileTagsOf_def matchedFiles_def folderTree_def addFileToFolderTree_def
  collectTagsForFile_def inline_of_def fmTags_of_def tagMatchesAny_get_def truthy_def
  splitNode_def bucketAdd_def string_eval Let_def tagMatchesAny_list_ex

lemma first_pattern_wins_example:
  "propagateLevel (GroupNode (js ''root'') (- 1) [] [js ''N.md''])
      [js ''#c'', js ''#a'', js ''#b''] (\<lambda>f. Some [js ''#a/x'', js ''#b'']) 0 =
     Inr (GroupNode (js ''root'') (- 1) [(js ''a'', GroupNode (js ''a'') 0 [] [js ''N.md''])] [])
   \<and> matchesPattern [js ''#a/x'', js ''#b''] (js ''#a'')
   \<and> matchesPattern [js ''#a/x'', js ''#b''] (js ''#b'')
   \<and> js ''N.md'' \<in> set (bucketFiles [(js ''a'', GroupNode (js ''a'') 0 [] [js ''N.md''])] (js ''a''))
   \<and> js ''N.md'' \<notin> set (bucketFiles [(js ''a'', GroupNode (js ''a'') 0 [] [js ''N.md''])] (js ''b''))"
proof -
  let ?node = "GroupNode (js ''root'') (- 1) [] [js ''N.md''] :: jsstring GroupNode"
  let ?ft = "\<lambda>f :: jsstring. Some [js ''#a/x'', js ''#b'']"
  let ?res = "GroupNode (js ''root'') (- 1) [(js ''a'', GroupNode (js ''a'') 0 [] [js ''N.md''])] []
    :: jsstring GroupNode"
  have e: "propagateLevel ?node [js ''#c'', js ''#a'', js ''#b''] ?ft 0 = Inr ?res"
    by (simp add: tree_eval del: tagMatchesAny.simps(2))
  have m: "matchesPattern [js ''#a/x'', js ''#b''] (js ''#a'')"
    "matchesPattern [js ''#a/x'', js ''#b''] (js ''#b'')"
    "\<forall>p \<in> set [js ''#c'']. \<not> matchesPattern [js ''#a/x'', js ''#b''] p"
    by (simp_all add: matchesPattern_def string_eval)
  have h: "children ?node = []" "js ''N.md'' \<in> set (files ?node)"
    "\<forall>g \<in> set (files ?node). ?ft g \<noteq> None" "?ft (js ''N.md'') = Some [js ''#a/x'', js ''#b'']"
    "[js ''#c'', js ''#a'', js ''#b''] = [js ''#c''] @ js ''#a'' # [js ''#b'']" "js ''#a'' \<noteq> []"
    by (simp_all add: js_def)
  note t = first_pattern_wins [where node = ?node and f = "js ''N.md''" and fileTags = ?ft
      and T = "[js ''#a/x'', js ''#b'']" and levelTags = "[js ''#c'', js ''#a'', js ''#b'']"
      and pre = "[js ''#c'']" and w = "js ''#a''" and post = "[js ''#b'']" and levelIdx = 0]
  from t [OF h(1,2,3,4,5) m(1,3) h(6)] obtain node' where
    p: "propagateLevel ?node [js ''#c'', js ''#a'', js ''#b''] ?ft 0 = Inr node'"
    and kk: "\<forall>k. js ''N.md'' \<in> set (bucketFiles (children node') k) \<longleftrightarrow> k = stripHash (js ''#a'')"
    by blast
  from p have n: "node' = ?res" unfolding e by (rule sum.inject(2) [THEN iffD1, symmetric])
  note k = kk [unfolded n]
  have s: "stripHash (js ''#a'') = js ''a''" "js ''b'' \<noteq> js ''a''" by (simp_all add: string_eval)
  from k [rule_format, of "js ''a''"] s(1)
  have a: "js ''N.md'' \<in> set (bucketFiles (children ?res) (js ''a''))" by simp
  from k [rule_format, of "js ''b''"] s
  have b: "js ''N.md'' \<notin> set (bucketFiles (children ?res) (js ''b''))" by simp
  from a b have "js ''N.md'' \<in> set (bucketFiles [(js ''a'', GroupNode (js ''a'') 0 [] [js ''N.md''])] (js ''a''))"
    "js ''N.md'' \<notin> set (bucketFiles [(js ''a'', GroupNode (js ''a'') 0 [] [js ''N.md''])] (js ''b''))"
    by simp_all
  with e m(1,2) show ?thesis by (intro conjI)
qed

theorem unmatched_bucket_label_witness:
  "propagateLevel (GroupNode (js ''root'') (- 1) [] exampleFiles) [js ''#project'']
      (fileTagsOf exampleCache exampleFiles) 0 = Inr splitExample
   \<and> set (bucketFiles (children splitExample) (js ''Others'')) =
       {g \<in> set exampleFiles.
          matchKey (fileTagsOf exampleCache exampleFiles) [js ''#project''] g = None}
   \<and> bucketFiles (children splitExample) (js ''Others'') = [js ''C.md'']
   \<and> bucketFiles (children splitExample) (js ''project'') = [js ''A.md'', js ''B.md'']"
proof -
  let ?node = "GroupNode (js ''root'') (- 1) [] exampleFiles"
  let ?ft = "fileTagsOf exampleCache exampleFiles"
  have e: "propagateLevel ?node [js ''#project''] ?ft 0 = Inr splitExample"
    by (simp add: tree_eval exampleCache_def exampleFiles_def splitExample_def
          del: tagMatchesAny.simps(2))
  have h: "children ?node = []" "files ?node \<noteq> []"
    "\<forall>g \<in> set (files ?node). ?ft g \<noteq> None"
    by (simp_all add: fileTagsOf_apply exampleFiles_def js_def)
  have h2: "js ''#Others'' \<notin> set [js ''#project''] \<and> js ''Others'' \<notin> set [js ''#project'']"
    by (simp add: js_def)
  note t = unmatched_bucket_label [where node = ?node and fileTags = ?ft
      and levelTags = "[js ''#project'']" and levelIdx = 0]
  from t [OF h] obtain node' where
    p: "propagateLevel ?node [js ''#project''] ?ft 0 = Inr node'"
    and b: "\<forall>k. set (bucketFiles (children node') k) =
                 {g \<in> set (files ?node). matchKey ?ft [js ''#project''] g = Some k}
                 \<union> (if k = js ''Others''
                    then {g \<in> set (files ?node). matchKey ?ft [js ''#project''] g = None}
                    else {})"
    and no: "js ''#Others'' \<notin> set [js ''#project''] \<and> js ''Others'' \<notin> set [js ''#project''] \<longrightarrow>
                (\<forall>g. matchKey ?ft [js ''#project''] g \<noteq> Some (js ''Others''))"
    by blast
  from p have n: "node' = splitExample"
    unfolding e by (rule sum.inject(2) [THEN iffD1, symmetric])
  from no h2 have "\<forall>g. matchKey ?ft [js ''#project''] g \<noteq> Some (js ''Others'')" by blast
  with b [unfolded n, rule_format, of "js ''Others''"]
  have "set (bucketFiles (children splitExample) (js ''Others'')) =
       {g \<in> set (files ?node). matchKey ?ft [js ''#project''] g = None}"
    by simp
  moreover have "bucketFiles (children splitExample) (js ''Others'') = [js ''C.md'']"
    "bucketFiles (children splitExample) (js ''project'') = [js ''A.md'', js ''B.md'']"
    by (simp_all add: bucketFiles_def splitExample_def js_def)
  moreover have "files ?node = exampleFiles" by simp
  ultimately show ?thesis using e by (simp only: simp_thms)
qed

text \<open>
  Claim C8 fails on the code. The level editor can store the empty pattern, and a blank
  frontmatter tag gives a file the empty tag. The second level has the empty pattern
  before \<open>#b\<close>, and both match the tags of \<open>N.md\<close>. \<open>tagMatchesAny\<close> returns the first of
  them, the empty string, which \<open>if (match)\<close> (line 768) takes for no match: the file
  stands in the bucket \<open>Others\<close>, in neither the bucket of the empty pattern (the label
  is the empty string) nor the bucket \<open>b\<close>.
\<close>

theorem empty_pattern_goes_to_Others:
  "build (\<lambda>p. p) emptyPatternCache [js ''N.md''] [js ''N.md''] emptyPatternLevels =
     Inr (emptyPatternTagTree, GroupNode (js ''root'') (- 1) [] [])
   \<and> collectTagsForFile (emptyPatternCache (js ''N.md'')) = [[], js ''#b'']
   \<and> matchesPattern [[], js ''#b''] []
   \<and> matchesPattern [[], js ''#b''] (js ''#b'')
   \<and> tagMatchesAny [[], js ''#b''] [[], js ''#b''] = Some []
   \<and> stripHash [] = []
   \<and> bucketFiles [(js ''Others'', GroupNode (js ''Others'') 1 [] [js ''N.md''])] [] = []
   \<and> bucketFiles [(js ''Others'', GroupNode (js ''Others'') 1 [] [js ''N.md''])] (js ''b'') = []
   \<and> bucketFiles [(js ''Others'', GroupNode (js ''Others'') 1 [] [js ''N.md''])] (js ''Others'')
       = [js ''N.md'']"
  by (simp add: tree_eval emptyPatternCache_def emptyPatternLevels_def emptyPatternTagTree_def
        matchesPattern_def bucketFiles_def del: tagMatchesAny.simps(2))

text \<open>
  With the levels \<open>#p\<close> and \<open>#Others\<close>, the second level splits the bucket \<open>p\<close>: \<open>A.md\<close>
  matches the pattern \<open>#Others\<close>, \<open>B.md\<close> matches no pattern, and both stand in the one
  child labelled \<open>Others\<close>.
\<close>

theorem others_pattern_counterexample:
  "build (\<lambda>p. p) othersCache othersFiles othersFiles othersLevels =
     Inr (othersTagTree, GroupNode (js ''root'') (- 1) [] [])
   \<and> tagMatchesAny (collectTagsForFile (othersCache (js ''A.md''))) [js ''#Others'']
       = Some (js ''#Others'')
   \<and> tagMatchesAny (collectTagsForFile (othersCache (js ''B.md''))) [js ''#Others''] = None
   \<and> stripHash (js ''#Others'') = js ''Others''"
  by (simp add: tree_eval othersCache_def othersFiles_def othersLevels_def othersTagTree_def
        del: tagMatchesAny.simps(2))

end
